theory Spec2Isabelle
  imports Main "HOL-Library.Word" "HOL-Library.AList"
begin

unbundle bit_operations_syntax

section \<open>Byte buffers and the reassembly queue (Connection.cpp, lines 89-128)\<close>

text \<open>
  A \<open>Buffer\<close> is one contiguous chunk of bytes; \<open>LinkedList<Buffer>\<close> is a list of
  chunks in arrival order. C++ \<open>unsigned int\<close> and \<open>int\<close> are 32-bit words; \<open>int\<close> is
  read through \<open>sint\<close>.
\<close>

type_synonym byte = "8 word"
type_synonym Buffer = "byte list"

datatype error = AssertionFailed | BufferOverrun

text \<open>
  \<open>bufferSize\<close>: the loop \<open>for (buffer : buffers) sz += buffer.size()\<close> on an
  \<open>unsigned int\<close> accumulator, so the sum wraps modulo \<open>2 ^ 32\<close>.
\<close>

definition bufferSize :: "Buffer list \<Rightarrow> 32 word" where
  "bufferSize buffers = fold (\<lambda>buffer sz. sz + of_nat (length buffer)) buffers 0"

text \<open>
  The \<open>while (it != buffers.end())\<close> loop of \<open>bufferRead\<close>. The argument list is the
  queue from the iterator on (the iterator never leaves the front, since every chunk it
  passes is erased); \<open>out\<close> holds the bytes copied so far (\<open>out[0..num)\<close>), so
  \<open>memcpy(out + num, it->data(), cur)\<close> appends. \<open>num\<close> and \<open>rem\<close> stay between 0 and
  \<open>size\<close> (here \<open>sz\<close>), and \<open>cur \<le> rem\<close>, so the unsigned arithmetic on them never
  wraps and they are natural numbers here. Each \<open>assert\<close> is a branch that returns \<open>AssertionFailed\<close>.
  The result is (return value, bytes copied to \<open>out\<close>, queue afterwards).
\<close>

fun bufferRead_loop ::
  "Buffer list \<Rightarrow> Buffer \<Rightarrow> nat \<Rightarrow> nat \<Rightarrow> 32 word \<Rightarrow> error + (32 word \<times> Buffer \<times> Buffer list)" where
  "bufferRead_loop [] out num rem sz = Inr (of_nat num, out, [])"
| "bufferRead_loop (front # rest) out num rem sz =
    (let cur = min (length front) rem;
         out' = out @ take cur front;
         rem' = rem - cur;
         num' = num + cur
     in if cur = length front then
          (if rem' = 0 then
             (if num' = unat sz then Inr (sz, out', rest) else Inl AssertionFailed)
           else bufferRead_loop rest out' num' rem' sz)
        else if rem' \<noteq> 0 \<or> \<not> cur < length front \<or> \<not> 0 < cur then Inl AssertionFailed
        else if num' = unat sz then Inr (sz, out', drop cur front # rest)
        else Inl AssertionFailed)"

definition bufferRead ::
  "Buffer list \<Rightarrow> 32 word \<Rightarrow> error + (32 word \<times> Buffer \<times> Buffer list)" where
  "bufferRead buffers sz =
    (if sz = 0 then Inr (0, [], buffers)
     else bufferRead_loop buffers [] 0 (unat sz) sz)"

section \<open>The framed transport (Connection.cpp)\<close>

text \<open>
  Modelled from the spec: \<open>Serializer\<close> and \<open>Deserializer\<close> are not among the sources.
  The spec fixes the frame length and the message id as 4 bytes in network byte order,
  so an \<open>int\<close> is written most significant byte first and read back the same way.
\<close>

definition serialize_int :: "32 word \<Rightarrow> Buffer" where
  "serialize_int w =
    [ucast (drop_bit 24 w), ucast (drop_bit 16 w), ucast (drop_bit 8 w), ucast w]"

definition deserialize_int :: "Buffer \<Rightarrow> 32 word" where
  "deserialize_int buf = foldl (\<lambda>w b. push_bit 8 w OR ucast b) 0 buf"

text \<open>
  Modelled from the spec: \<open>SocketClient\<close> is not among the sources. The stream has a
  connectivity flag, a read buffer holding the bytes received and not yet taken
  (\<open>buffer()\<close>), \<open>write\<close> (here \<open>client_write\<close>), which the stream accepts or
  refuses (the outcome \<open>ok\<close> is the environment's; an accepted write is appended to
  \<open>written\<close>), and \<open>close\<close>.
\<close>

record SocketClient =
  isConnected :: bool
  buffer :: Buffer
  written :: "Buffer list"
  closed :: bool

definition client_write :: "bool \<Rightarrow> Buffer \<Rightarrow> SocketClient \<Rightarrow> bool \<times> SocketClient" where
  "client_write ok bytes client =
    (if ok then (True, client\<lparr>written := written client @ [bytes]\<rparr>) else (False, client))"

definition client_close :: "SocketClient \<Rightarrow> SocketClient" where
  "client_close client = client\<lparr>isConnected := False, closed := True\<rparr>"

text \<open>
  What the transport does to the outside, in order: the signals \<open>newMessage\<close>,
  \<open>mSendComplete\<close> and \<open>mDestroyed\<close>, the \<open>::error\<close> log line, and the task handed to
  \<open>EventLoop::deleteLater\<close>.
\<close>

datatype 'm effect = NewMessage 'm | SendComplete | Destroyed | ErrorLog | DeleteLater

text \<open>
  The fields of \<open>Connection\<close>. \<open>Connection.h\<close> is not among the sources; \<open>mPendingWrite\<close>
  is what \<open>pendingWrite()\<close> returns as an \<open>int\<close>, and \<open>mPendingRead\<close> is compared with
  \<open>static_cast<int>(sizeof(buf))\<close> and with the \<open>int\<close> that \<open>bufferRead\<close> returns, so both
  are \<open>int\<close>s: 32-bit words read through \<open>sint\<close>. \<open>destroyed\<close> says whether the
  destructor has run.
\<close>

record 'm Connection =
  mClient :: SocketClient
  mBuffers :: "Buffer list"
  mPendingRead :: "32 word"
  mPendingWrite :: "32 word"
  mDone :: bool
  mSilent :: bool
  destroyed :: bool
  trace :: "'m effect list"

definition emit :: "'m effect \<Rightarrow> 'm Connection \<Rightarrow> 'm Connection" where
  "emit e c = c\<lparr>trace := trace c @ [e]\<rparr>"

text \<open>
  \<open>Connection::send\<close> (lines 51-76). \<open>okHeader\<close> and \<open>okData\<close> are the stream's answers to
  \<open>mClient->write(header)\<close> and \<open>mClient->write(data)\<close>; \<open>&&\<close> skips the second write when
  the first is refused; \<open>ident\<close> is the argument \<open>id\<close>. \<open>mPendingWrite\<close> grows before
  either write is tried.
\<close>

definition send ::
  "bool \<Rightarrow> bool \<Rightarrow> 32 word \<Rightarrow> Buffer \<Rightarrow> 'm Connection \<Rightarrow> bool \<times> 'm Connection" where
  "send okHeader okData ident message c =
    (if message = [] then (True, c)
     else if \<not> isConnected (mClient c) then (False, emit ErrorLog c)
     else if mSilent c then (True, c)
     else
       let data = (if length message \<noteq> 0 then serialize_int ident @ message else []);
           header = serialize_int (of_nat (length data));
           c1 = c\<lparr>mPendingWrite := mPendingWrite c + of_nat (length header + length data)\<rparr>
       in case client_write okHeader header (mClient c1) of
            (False, client) \<Rightarrow> (False, c1\<lparr>mClient := client\<rparr>)
          | (True, client) \<Rightarrow>
              (case client_write okData data client of
                 (r, client') \<Rightarrow> (r, c1\<lparr>mClient := client'\<rparr>)))"

definition pendingWrite :: "'m Connection \<Rightarrow> int" where
  "pendingWrite c = sint (mPendingWrite c)"

text \<open>
  \<open>Connection::dataWritten\<close> (lines 170-182); \<open>bytes\<close> is an \<open>int\<close>. The assertion
  compares two \<open>int\<close>s.
\<close>

definition dataWritten :: "32 word \<Rightarrow> 'm Connection \<Rightarrow> error + 'm Connection" where
  "dataWritten bytes c =
    (if \<not> sint bytes \<le> sint (mPendingWrite c) then Inl AssertionFailed
     else
       let c1 = c\<lparr>mPendingWrite := mPendingWrite c - bytes\<rparr> in
       if mPendingWrite c1 = 0 then
         let c2 = (if bytes \<noteq> 0 then emit SendComplete c1 else c1) in
         if mDone c2 then Inr (emit DeleteLater (c2\<lparr>mClient := client_close (mClient c2)\<rparr>))
         else Inr c2
       else Inr c1)"

text \<open>\<open>Connection::finish\<close> (lines 83-87).\<close>

definition finish :: "'m Connection \<Rightarrow> error + 'm Connection" where
  "finish c = dataWritten 0 (c\<lparr>mDone := True\<rparr>)"

text \<open>\<open>Connection::~Connection\<close> (lines 28-32): the only place \<open>mDestroyed\<close> is emitted.\<close>

definition destructor :: "'m Connection \<Rightarrow> 'm Connection" where
  "destructor c = (emit Destroyed c)\<lparr>destroyed := True\<rparr>"

text \<open>
  The receive path, \<open>Connection::dataAvailable\<close> (lines 130-168), in three parts.

  \<open>readHeader\<close> is the block \<open>if (!mPendingRead) { ... }\<close> (lines 138-147); \<open>None\<close> is its
  \<open>break\<close>. \<open>available\<close> is an \<open>unsigned int\<close>, so the comparison with
  \<open>static_cast<int>(sizeof(uint32_t))\<close> is unsigned.
\<close>

definition readHeader ::
  "'m Connection \<Rightarrow> 32 word \<Rightarrow> error + ('m Connection \<times> 32 word) option" where
  "readHeader c available =
    (if mPendingRead c = 0 then
       if available < 4 then Inr None
       else
         (case bufferRead (mBuffers c) 4 of
            Inl e \<Rightarrow> Inl e
          | Inr (read, buf, buffers) \<Rightarrow>
              if read \<noteq> 4 then Inl AssertionFailed
              else Inr (Some (c\<lparr>mBuffers := buffers, mPendingRead := deserialize_int buf\<rparr>,
                              available - 4)))
     else Inr (Some (c, available)))"

text \<open>
  \<open>readMessage\<close> is lines 148-165; the boolean says whether the loop goes on (\<open>False\<close> is
  the \<open>break\<close> of line 149). \<open>available < mPendingRead\<close> compares an \<open>unsigned int\<close> with
  an \<open>int\<close>, so the \<open>int\<close> is read as unsigned. \<open>mPendingRead > sizeof(buf)\<close> compares
  \<open>int\<close>s: when it is false the 1024-byte array \<open>buf\<close> is the target, and
  \<open>bufferRead\<close> then copies \<open>(unsigned) mPendingRead\<close> bytes into it, which overruns the
  array when that is more than 1024 (a negative \<open>mPendingRead\<close>). \<open>create\<close> is
  \<open>Messages::create\<close>, the decode registry, which is not among the sources.
\<close>

definition readMessage ::
  "(Buffer \<Rightarrow> 'm option) \<Rightarrow> 'm Connection \<Rightarrow> 32 word \<Rightarrow> error + (bool \<times> 'm Connection)" where
  "readMessage create c available =
    (if available < mPendingRead c then Inr (False, c)
     else if \<not> 1024 < sint (mPendingRead c) \<and> 1024 < unat (mPendingRead c)
       then Inl BufferOverrun
     else
       (case bufferRead (mBuffers c) (mPendingRead c) of
          Inl e \<Rightarrow> Inl e
        | Inr (read, buf, buffers) \<Rightarrow>
            if read \<noteq> mPendingRead c then Inl AssertionFailed
            else
              let c1 = c\<lparr>mBuffers := buffers\<rparr>;
                  c2 = (case create buf of
                          Some message \<Rightarrow> emit (NewMessage message) c1
                        | None \<Rightarrow> c1)
              in Inr (True, c2\<lparr>mPendingRead := 0\<rparr>)))"

text \<open>
  One pass through the body of \<open>while (true)\<close> after the emptiness test: line 135 moves
  the stream's buffer to the back of \<open>mBuffers\<close>, which leaves the stream's buffer
  empty (the spec: ownership transfers into the queue).
\<close>

definition dataAvailable_body ::
  "(Buffer \<Rightarrow> 'm option) \<Rightarrow> 'm Connection \<Rightarrow> error + (bool \<times> 'm Connection)" where
  "dataAvailable_body create c =
    (let c1 = c\<lparr>mBuffers := mBuffers c @ [buffer (mClient c)],
                mClient := (mClient c)\<lparr>buffer := []\<rparr>\<rparr>;
         available = bufferSize (mBuffers c1)
     in case readHeader c1 available of
          Inl e \<Rightarrow> Inl e
        | Inr None \<Rightarrow> Inr (False, c1)
        | Inr (Some (c2, available')) \<Rightarrow> readMessage create c2 available')"

lemma readHeader_mClient:
  "readHeader c available = Inr (Some (c', available')) \<Longrightarrow> mClient c' = mClient c"
  by (auto simp: readHeader_def split: if_splits sum.splits prod.splits)

lemma readMessage_mClient:
  "readMessage create c available = Inr (go, c') \<Longrightarrow> mClient c' = mClient c"
  by (auto simp: readMessage_def emit_def Let_def split: if_splits sum.splits prod.splits option.splits)

lemma dataAvailable_body_buffer:
  "dataAvailable_body create c = Inr (go, c') \<Longrightarrow> buffer (mClient c') = []"
  by (auto simp: dataAvailable_body_def Let_def
           split: sum.splits option.splits prod.splits
           dest!: readHeader_mClient readMessage_mClient)

text \<open>
  The loop of \<open>dataAvailable\<close>: the emptiness test of line 133 runs before every pass.
\<close>

function dataAvailable ::
  "(Buffer \<Rightarrow> 'm option) \<Rightarrow> 'm Connection \<Rightarrow> error + 'm Connection" where
  "dataAvailable create c =
    (if buffer (mClient c) = [] then Inr c
     else
       (case dataAvailable_body create c of
          Inl e \<Rightarrow> Inl e
        | Inr (False, c') \<Rightarrow> Inr c'
        | Inr (True, c') \<Rightarrow> dataAvailable create c'))"
  by pat_completeness auto
termination
  by (relation "measure (\<lambda>(create, c). length (buffer (mClient c)))")
     (auto dest: dataAvailable_body_buffer)

declare dataAvailable.simps [simp del]

text \<open>
  Modelled from the spec: \<open>EventLoop\<close> is not among the sources. An object handed to
  \<open>EventLoop::deleteLater\<close> is destroyed by the loop at its next turn, not by the caller.
\<close>

definition eventLoopTurn :: "'m Connection \<Rightarrow> 'm Connection" where
  "eventLoopTurn c = (if DeleteLater \<in> set (trace c) \<and> \<not> destroyed c then destructor c else c)"

text \<open>
  A history of the send path: calls of \<open>send\<close> (with the stream's two answers) and
  \<open>bytesWritten\<close> notifications, which the constructor connects to \<open>dataWritten\<close>.
  \<open>run\<close> stops at the first failed assertion and collects what the calls of \<open>send\<close>
  returned.
\<close>

datatype op = Send bool bool "32 word" Buffer | BytesWritten "32 word"

fun step :: "op \<Rightarrow> 'm Connection \<Rightarrow> error + (bool list \<times> 'm Connection)" where
  "step (Send okHeader okData ident message) c =
    (case send okHeader okData ident message c of (r, c') \<Rightarrow> Inr ([r], c'))"
| "step (BytesWritten bytes) c =
    (case dataWritten bytes c of Inl e \<Rightarrow> Inl e | Inr c' \<Rightarrow> Inr ([], c'))"

fun run :: "op list \<Rightarrow> 'm Connection \<Rightarrow> error + (bool list \<times> 'm Connection)" where
  "run [] c = Inr ([], c)"
| "run (x # xs) c =
    (case step x c of
       Inl e \<Rightarrow> Inl e
     | Inr (rs, c') \<Rightarrow>
         (case run xs c' of Inl e \<Rightarrow> Inl e | Inr (rs', c'') \<Rightarrow> Inr (rs @ rs', c'')))"

text \<open>
  The accounting of the spec, section 4.2: an accepted send of an empty payload or on a
  silent transport hands nothing to the stream; any other accepted send hands it the
  4-byte header plus payload', the 4-byte id followed by the payload. \<open>enqueued\<close> is
  the total \<open>B\<close> of a history, \<open>acknowledged\<close> the total \<open>A\<close> of its notifications.
\<close>

fun frameBytes :: "bool \<Rightarrow> op \<Rightarrow> nat" where
  "frameBytes silent (Send okHeader okData ident message) =
    (if message = [] \<or> silent then 0 else 4 + (4 + length message))"
| "frameBytes silent (BytesWritten bytes) = 0"

definition enqueued :: "bool \<Rightarrow> op list \<Rightarrow> nat" where
  "enqueued silent ops = sum_list (map (frameBytes silent) ops)"

fun ackBytes :: "op \<Rightarrow> int" where
  "ackBytes (Send okHeader okData ident message) = 0"
| "ackBytes (BytesWritten bytes) = sint bytes"

definition acknowledged :: "op list \<Rightarrow> int" where
  "acknowledged ops = sum_list (map ackBytes ops)"

definition wireBytes :: "'m Connection \<Rightarrow> nat" where
  "wireBytes c = length (concat (written (mClient c)))"

text \<open>
  A history the stream can produce from a state with \<open>pend\<close> bytes pending: the stream
  accepts both writes of every send, the bytes pending stay within the range of
  \<open>int\<close>, and a notification acknowledges a count that is not negative and not more
  than what is pending when it arrives.
\<close>

fun feasible :: "bool \<Rightarrow> int \<Rightarrow> op list \<Rightarrow> bool" where
  "feasible silent pend [] = True"
| "feasible silent pend (Send okHeader okData ident message # ops) =
    (okHeader \<and> okData
     \<and> pend + int (frameBytes silent (Send okHeader okData ident message)) < 2 ^ 31
     \<and> feasible silent (pend + int (frameBytes silent (Send okHeader okData ident message))) ops)"
| "feasible silent pend (BytesWritten bytes # ops) =
    (0 \<le> sint bytes \<and> sint bytes \<le> pend \<and> feasible silent (pend - sint bytes) ops)"

text \<open>
  Modelled from the spec: the stream side of a delivery. The stream appends the bytes
  it received to its read buffer and raises \<open>readyRead\<close>, which the constructor
  connects to \<open>dataAvailable\<close>. \<open>deliverAll\<close> is a sequence of such deliveries, one
  notification per chunk.
\<close>

definition receive :: "Buffer \<Rightarrow> 'm Connection \<Rightarrow> 'm Connection" where
  "receive chunk c = c\<lparr>mClient := (mClient c)\<lparr>buffer := buffer (mClient c) @ chunk\<rparr>\<rparr>"

fun deliverAll ::
  "(Buffer \<Rightarrow> 'm option) \<Rightarrow> Buffer list \<Rightarrow> 'm Connection \<Rightarrow> error + 'm Connection" where
  "deliverAll create [] c = Inr c"
| "deliverAll create (chunk # chunks) c =
    (case dataAvailable create (receive chunk c) of
       Inl e \<Rightarrow> Inl e
     | Inr c' \<Rightarrow> deliverAll create chunks c')"

text \<open>
  The wire format of the spec, section 6: \<open>[u32 length][u32 message-id][payload]\<close>, the
  length covering id and payload. A message is an id and its payload bytes.
  Modelled from the spec: \<open>Messages::create\<close> is not among the sources; \<open>decode_message\<close>
  is the registry that accepts every body holding an id.
\<close>

definition encode :: "32 word \<Rightarrow> Buffer \<Rightarrow> Buffer" where
  "encode ident payload =
    serialize_int (of_nat (4 + length payload)) @ serialize_int ident @ payload"

type_synonym Message = "32 word \<times> Buffer"

definition decode_message :: "Buffer \<Rightarrow> Message option" where
  "decode_message body =
    (if length body < 4 then None else Some (deserialize_int (take 4 body), drop 4 body))"

text \<open>The state the constructors set up, on a connected stream (lines 9-26).\<close>

definition example_connection :: "Message Connection" where
  "example_connection =
    \<lparr>mClient = \<lparr>isConnected = True, buffer = [], written = [], closed = False\<rparr>,
     mBuffers = [], mPendingRead = 0, mPendingWrite = 0, mDone = False, mSilent = False,
     destroyed = False, trace = []\<rparr>"

text \<open>
  What a handler step leaves behind, as far as the following steps can tell: the bytes
  in the queue, \<open>mPendingRead\<close>, the effects so far, and the stream's buffer.
  \<open>announce\<close> is the effect of handing a frame body to the registry.
\<close>

definition receive_state :: "'m Connection \<Rightarrow> Buffer \<times> 32 word \<times> 'm effect list \<times> Buffer" where
  "receive_state c = (concat (mBuffers c), mPendingRead c, trace c, buffer (mClient c))"

definition announce :: "(Buffer \<Rightarrow> 'm option) \<Rightarrow> Buffer \<Rightarrow> 'm effect list" where
  "announce create body = (case create body of None \<Rightarrow> [] | Some message \<Rightarrow> [NewMessage message])"

text \<open>
  The two states of \<open>mPendingRead\<close> between handler steps: not negative, and either 0
  (the next thing to read is a header) or more than the bytes the queue holds (the
  payload of the current frame is incomplete).
\<close>

definition pendingRead_inv :: "'m Connection \<Rightarrow> bool" where
  "pendingRead_inv c =
    (0 \<le> sint (mPendingRead c)
     \<and> (mPendingRead c = 0 \<or> bufferSize (mBuffers c) < mPendingRead c))"

section \<open>The process runner (Process_Windows.cpp)\<close>

text \<open>
  A \<open>HANDLE\<close> is \<open>INVALID_HANDLE_VALUE\<close>, the null handle that \<open>memset\<close> leaves in
  \<open>mProcess\<close>, or a handle the system gave out. \<open>mStdIn\<close>, \<open>mStdOut\<close> and \<open>mStdErr\<close> are
  arrays of two handles, indexed by \<open>READ_END\<close> and \<open>WRITE_END\<close>.
\<close>

datatype HANDLE = INVALID_HANDLE_VALUE | NULL_HANDLE | Handle nat

datatype ExecState = Done | Error

datatype ReturnCode = ReturnUnset | ExitCode "32 word" | Indeterminate

datatype psignal = ReadyReadStdOut | ReadyReadStdErr | Finished

datatype read_error = ERROR_BROKEN_PIPE | ERROR_INVALID_HANDLE

datatype read_result = ReadOk Buffer | ReadFailed read_error

text \<open>
  The arguments a reader thread is started with: the pipe, the signal, and whether
  \<open>f_execAfter\<close> is bound to \<open>waitForProcessToFinish\<close> (the finalizer role) or is
  \<open>nullptr\<close>.
\<close>

datatype worker = Worker HANDLE psignal bool

text \<open>
  The object and the part of the operating system it talks to. \<open>emitted\<close> lists the
  signals raised, \<open>errors\<close> counts the lines written to \<open>error()\<close>. Of the system:
  \<open>os_next\<close> is the next handle it gives out, \<open>os_open\<close> the handles that are open,
  \<open>os_pipes\<close> maps the read end of a pipe to the chunks that the coming calls of
  \<open>ReadFile\<close> return before the pipe reports that its writer is gone, \<open>os_exitCode\<close> is
  the child's exit code and \<open>os_exitCodeFetches\<close> counts the calls of
  \<open>GetExitCodeProcess\<close>.
\<close>

record Process =
  mStdIn :: "HANDLE \<times> HANDLE"
  mStdOut :: "HANDLE \<times> HANDLE"
  mStdErr :: "HANDLE \<times> HANDLE"
  hProcess :: HANDLE
  hThread :: HANDLE
  mReturn :: ReturnCode
  mStdOutBuffer :: Buffer
  mStdErrBuffer :: Buffer
  mthStdout :: "worker option"
  mthStderr :: "worker option"
  emitted :: "psignal list"
  errors :: nat
  os_next :: nat
  os_open :: "nat list"
  os_pipes :: "(nat \<times> Buffer list) list"
  os_exitCode :: "32 word"
  os_exitCodeFetches :: nat

abbreviation READ_END :: "HANDLE \<times> HANDLE \<Rightarrow> HANDLE" where
  "READ_END hs \<equiv> fst hs"

abbreviation WRITE_END :: "HANDLE \<times> HANDLE \<Rightarrow> HANDLE" where
  "WRITE_END hs \<equiv> snd hs"

text \<open>\<open>Process::Process\<close> (lines 14-24), in a system with no handle open.\<close>

definition Process_new :: Process where
  "Process_new =
    \<lparr>mStdIn = (INVALID_HANDLE_VALUE, INVALID_HANDLE_VALUE),
     mStdOut = (INVALID_HANDLE_VALUE, INVALID_HANDLE_VALUE),
     mStdErr = (INVALID_HANDLE_VALUE, INVALID_HANDLE_VALUE),
     hProcess = INVALID_HANDLE_VALUE, hThread = INVALID_HANDLE_VALUE,
     mReturn = ReturnUnset, mStdOutBuffer = [], mStdErrBuffer = [],
     mthStdout = None, mthStderr = None, emitted = [], errors = 0,
     os_next = 0, os_open = [], os_pipes = [], os_exitCode = 0, os_exitCodeFetches = 0\<rparr>"

definition raise_signal :: "psignal \<Rightarrow> Process \<Rightarrow> Process" where
  "raise_signal sig p = p\<lparr>emitted := emitted p @ [sig]\<rparr>"

definition log_error :: "Process \<Rightarrow> Process" where
  "log_error p = p\<lparr>errors := Suc (errors p)\<rparr>"

text \<open>
  The system calls. \<open>CreatePipe\<close> and \<open>CreateProcess\<close> succeed or fail as the system
  decides (\<open>ok\<close>); a failed call leaves the handles it was given as they were.
  \<open>CloseHandle\<close> closes a handle the system gave out and fails on any other.
\<close>

definition CreatePipe :: "bool \<Rightarrow> HANDLE \<times> HANDLE \<Rightarrow> Process \<Rightarrow> bool \<times> (HANDLE \<times> HANDLE) \<times> Process" where
  "CreatePipe ok hs p =
    (if ok then
       (True, (Handle (os_next p), Handle (Suc (os_next p))),
        p\<lparr>os_next := os_next p + 2,
           os_open := os_open p @ [os_next p, Suc (os_next p)],
           os_pipes := os_pipes p @ [(os_next p, [])]\<rparr>)
     else (False, hs, p))"

definition CloseHandle :: "HANDLE \<Rightarrow> Process \<Rightarrow> Process" where
  "CloseHandle h p =
    (case h of Handle n \<Rightarrow> p\<lparr>os_open := removeAll n (os_open p)\<rparr> | _ \<Rightarrow> p)"

text \<open>
  \<open>Process::closeHandleIfValid\<close> (lines 41-48), the part that acts on the system; the
  caller stores \<open>INVALID_HANDLE_VALUE\<close> in the field it passed by reference.
\<close>

definition closeHandleIfValid :: "HANDLE \<Rightarrow> Process \<Rightarrow> Process" where
  "closeHandleIfValid f_handle p =
    (if f_handle \<noteq> INVALID_HANDLE_VALUE then CloseHandle f_handle p else p)"

text \<open>
  What the system answers during one spawn: the three \<open>CreatePipe\<close> calls, the three
  \<open>SetHandleInformation\<close> calls and \<open>CreateProcess\<close>; and what a launched child does:
  the chunks it writes to its standard output and standard error, and its exit code.
\<close>

record Outcomes =
  pipeIn :: bool
  pipeOut :: bool
  pipeErr :: bool
  infoIn :: bool
  infoOut :: bool
  infoErr :: bool
  launch :: bool

record Child =
  child_stdout :: "Buffer list"
  child_stderr :: "Buffer list"
  child_exit :: "32 word"

definition set_pipe :: "HANDLE \<Rightarrow> Buffer list \<Rightarrow> (nat \<times> Buffer list) list \<Rightarrow> (nat \<times> Buffer list) list" where
  "set_pipe h chunks pipes =
    (case h of Handle n \<Rightarrow> AList.update n chunks pipes | _ \<Rightarrow> pipes)"

definition CreateProcess :: "bool \<Rightarrow> Child \<Rightarrow> Process \<Rightarrow> bool \<times> Process" where
  "CreateProcess ok child p =
    (if ok then
       (True,
        p\<lparr>hProcess := Handle (os_next p), hThread := Handle (Suc (os_next p)),
           os_next := os_next p + 2,
           os_open := os_open p @ [os_next p, Suc (os_next p)],
           os_pipes := set_pipe (READ_END (mStdErr p)) (child_stderr child)
                         (set_pipe (READ_END (mStdOut p)) (child_stdout child) (os_pipes p)),
           os_exitCode := child_exit child\<rparr>)
     else (False, p))"

text \<open>
  \<open>Process::startInternal\<close> (lines 71-157). \<open>||\<close> stops at the first failing call.
  \<open>SetHandleInformation\<close> changes nothing the model keeps. \<open>memset\<close> puts null handles
  in \<open>mProcess\<close> before \<open>CreateProcess\<close> is tried. The two threads are recorded with
  their arguments; what a thread does is \<open>readFromPipe\<close>. A thread field that holds a
  thread is joinable, and assigning a new thread to a joinable \<open>std::thread\<close> (lines
  148 and 152) calls \<open>std::terminate\<close>: the program dies, which is the result
  \<open>Terminated\<close>.
\<close>

datatype fatal = Terminated

definition startInternal ::
  "Outcomes \<Rightarrow> Child \<Rightarrow> Process \<Rightarrow> fatal + (ExecState \<times> Process)" where
  "startInternal os child p =
    (case CreatePipe (pipeIn os) (mStdIn p) p of
       (False, hs, p1) \<Rightarrow> Inr (Error, log_error p1)
     | (True, hsIn, p1) \<Rightarrow>
    (case CreatePipe (pipeOut os) (mStdOut p1) (p1\<lparr>mStdIn := hsIn\<rparr>) of
       (False, hs, p2) \<Rightarrow> Inr (Error, log_error p2)
     | (True, hsOut, p2) \<Rightarrow>
    (case CreatePipe (pipeErr os) (mStdErr p2) (p2\<lparr>mStdOut := hsOut\<rparr>) of
       (False, hs, p3) \<Rightarrow> Inr (Error, log_error p3)
     | (True, hsErr, p3) \<Rightarrow>
    (let p4 = p3\<lparr>mStdErr := hsErr\<rparr> in
     if \<not> infoIn os \<or> \<not> infoOut os \<or> \<not> infoErr os then Inr (Error, log_error p4)
     else
       (case CreateProcess (launch os) child (p4\<lparr>hProcess := NULL_HANDLE, hThread := NULL_HANDLE\<rparr>) of
          (False, p5) \<Rightarrow> Inr (Error, log_error p5)
        | (True, p5) \<Rightarrow>
            (let p6 = (closeHandleIfValid (WRITE_END (mStdOut p5)) p5)
                        \<lparr>mStdOut := (READ_END (mStdOut p5), INVALID_HANDLE_VALUE)\<rparr>;
                 p7 = (closeHandleIfValid (WRITE_END (mStdErr p6)) p6)
                        \<lparr>mStdErr := (READ_END (mStdErr p6), INVALID_HANDLE_VALUE)\<rparr>
             in if mthStdout p7 \<noteq> None then Inl Terminated
                else
                  (let p8 = p7\<lparr>mthStdout :=
                              Some (Worker (READ_END (mStdOut p7)) ReadyReadStdOut True)\<rparr>
                   in if mthStderr p8 \<noteq> None then Inl Terminated
                      else Inr (Done,
                             p8\<lparr>mthStderr :=
                                  Some (Worker (READ_END (mStdErr p8)) ReadyReadStdErr False)\<rparr>))))))))"

text \<open>
  \<open>ReadFile\<close> on a pipe: the next chunk, or \<open>ERROR_BROKEN_PIPE\<close> when the writer is gone
  and nothing is left, or \<open>ERROR_INVALID_HANDLE\<close> on anything that is not a pipe.
\<close>

definition pending :: "HANDLE \<Rightarrow> Process \<Rightarrow> Buffer list option" where
  "pending h p = (case h of Handle n \<Rightarrow> map_of (os_pipes p) n | _ \<Rightarrow> None)"

definition ReadFile :: "HANDLE \<Rightarrow> Process \<Rightarrow> read_result \<times> Process" where
  "ReadFile h p =
    (case pending h p of
       None \<Rightarrow> (ReadFailed ERROR_INVALID_HANDLE, p)
     | Some [] \<Rightarrow> (ReadFailed ERROR_BROKEN_PIPE, p)
     | Some (chunk # chunks) \<Rightarrow> (ReadOk chunk, p\<lparr>os_pipes := set_pipe h chunks (os_pipes p)\<rparr>))"

definition unread :: "HANDLE \<Rightarrow> Process \<Rightarrow> nat" where
  "unread h p = (case pending h p of None \<Rightarrow> 0 | Some chunks \<Rightarrow> length chunks)"

lemma ReadFile_unread:
  "ReadFile h p = (ReadOk chunk, p') \<Longrightarrow> unread h p' < unread h p \<and> mStdOut p' = mStdOut p"
  by (auto simp: ReadFile_def unread_def pending_def set_pipe_def update_conv'
           split: option.splits list.splits HANDLE.splits)

lemma readFromPipe_loop_decreases:
  assumes "ReadFile (READ_END (mStdOut p)) p = (ReadOk buf, p1)"
  shows "unread (READ_END (mStdOut (raise_signal sig (p1\<lparr>mStdOutBuffer := b\<rparr>))))
           (raise_signal sig (p1\<lparr>mStdOutBuffer := b\<rparr>))
         < unread (READ_END (mStdOut p)) p"
proof -
  have "unread h (raise_signal sig (p1\<lparr>mStdOutBuffer := b\<rparr>)) = unread h p1" for h
    by (simp add: unread_def pending_def raise_signal_def split: HANDLE.splits)
  moreover have "mStdOut (raise_signal sig (p1\<lparr>mStdOutBuffer := b\<rparr>)) = mStdOut p1"
    by (simp add: raise_signal_def)
  ultimately show ?thesis using ReadFile_unread [OF assms] by simp
qed

text \<open>
  The loop of \<open>Process::readFromPipe\<close> (lines 170-195). It reads \<open>mStdOut[READ_END]\<close> and
  appends to \<open>mStdOutBuffer\<close> (lines 172 and 176); the lock is held for the append and
  the signal. The argument \<open>f_pipe\<close> is not used (line 163).
\<close>

function readFromPipe_loop :: "psignal \<Rightarrow> Process \<Rightarrow> Process" where
  "readFromPipe_loop f_signalGotSth p =
    (case ReadFile (READ_END (mStdOut p)) p of
       (ReadOk buf, p1) \<Rightarrow>
         readFromPipe_loop f_signalGotSth
           (raise_signal f_signalGotSth (p1\<lparr>mStdOutBuffer := mStdOutBuffer p1 @ buf\<rparr>))
     | (ReadFailed err, p1) \<Rightarrow>
         (if err = ERROR_BROKEN_PIPE then p1 else log_error p1))"
  by pat_completeness auto
termination
  by (relation "measure (\<lambda>(sig, p). unread (READ_END (mStdOut p)) p)")
     (auto intro: readFromPipe_loop_decreases dest: sym)

declare readFromPipe_loop.simps [simp del]

text \<open>
  \<open>WaitForSingleObject\<close> with no timeout returns once the child has exited; the model
  takes the child to exit. It answers \<open>WAIT_OBJECT_0\<close> (\<open>True\<close>) on an open handle and
  fails on any other. \<open>GetExitCodeProcess\<close> gives the exit code of an open process
  handle; on any other it fails and \<open>retCode\<close> keeps its indeterminate value.
\<close>

definition WaitForSingleObject :: "HANDLE \<Rightarrow> Process \<Rightarrow> bool" where
  "WaitForSingleObject h p = (case h of Handle n \<Rightarrow> n \<in> set (os_open p) | _ \<Rightarrow> False)"

definition GetExitCodeProcess :: "HANDLE \<Rightarrow> Process \<Rightarrow> ReturnCode \<times> Process" where
  "GetExitCodeProcess h p =
    (if WaitForSingleObject h p then ExitCode (os_exitCode p) else Indeterminate,
     p\<lparr>os_exitCodeFetches := Suc (os_exitCodeFetches p)\<rparr>)"

text \<open>
  \<open>Process::waitForProcessToFinish\<close> (lines 200-222), statement by statement. A caller
  is at one of these places; \<open>wait_step\<close> runs the statement at that place. No lock is
  taken anywhere in the function.
\<close>

datatype place = AtCheck | AtWait | AtGetExitCode | AtFinished | AtCloseThread | AtCloseProcess
  | AtReturn

fun wait_step :: "place \<Rightarrow> Process \<Rightarrow> place \<times> Process" where
  "wait_step AtCheck p = (if hProcess p = INVALID_HANDLE_VALUE then AtReturn else AtWait, p)"
| "wait_step AtWait p =
    (AtGetExitCode, if WaitForSingleObject (hProcess p) p then p else log_error p)"
| "wait_step AtGetExitCode p =
    (case GetExitCodeProcess (hProcess p) p of (retCode, p1) \<Rightarrow> (AtFinished, p1\<lparr>mReturn := retCode\<rparr>))"
| "wait_step AtFinished p = (AtCloseThread, raise_signal Finished p)"
| "wait_step AtCloseThread p =
    (AtCloseProcess, (closeHandleIfValid (hThread p) p)\<lparr>hThread := INVALID_HANDLE_VALUE\<rparr>)"
| "wait_step AtCloseProcess p =
    (AtReturn, (closeHandleIfValid (hProcess p) p)\<lparr>hProcess := INVALID_HANDLE_VALUE\<rparr>)"
| "wait_step AtReturn p = (AtReturn, p)"

text \<open>One caller running the function from entry to return, undisturbed.\<close>

definition waitForProcessToFinish :: "Process \<Rightarrow> Process" where
  "waitForProcessToFinish p =
    (case wait_step AtCheck p of
       (AtReturn, p0) \<Rightarrow> p0
     | (pl, p0) \<Rightarrow>
         (let p1 = snd (wait_step AtWait p0);
              p2 = snd (wait_step AtGetExitCode p1);
              p3 = snd (wait_step AtFinished p2);
              p4 = snd (wait_step AtCloseThread p3)
          in snd (wait_step AtCloseProcess p4)))"

text \<open>
  \<open>Process::readFromPipe\<close> (lines 159-198): the loop, then \<open>f_execAfter\<close> when it is
  bound.
\<close>

definition readFromPipe :: "HANDLE \<Rightarrow> psignal \<Rightarrow> bool \<Rightarrow> Process \<Rightarrow> Process" where
  "readFromPipe f_pipe f_signalGotSth f_execAfter p =
    (let p1 = readFromPipe_loop f_signalGotSth p
     in if f_execAfter then waitForProcessToFinish p1 else p1)"

definition run_worker :: "worker \<Rightarrow> Process \<Rightarrow> Process" where
  "run_worker w p = (case w of Worker f_pipe sig after \<Rightarrow> readFromPipe f_pipe sig after p)"

text \<open>
  \<open>Process::~Process\<close> (lines 26-39). A join returns when the worker has ended; the
  worker's own steps are \<open>run_worker\<close> and are not steps of the destructor. A joined
  thread is no longer joinable.
\<close>

definition close_pair :: "HANDLE \<times> HANDLE \<Rightarrow> Process \<Rightarrow> Process" where
  "close_pair hs p = closeHandleIfValid (WRITE_END hs) (closeHandleIfValid (READ_END hs) p)"

definition Process_destructor :: "Process \<Rightarrow> Process" where
  "Process_destructor p =
    (let p1 = waitForProcessToFinish p;
         p2 = close_pair (mStdErr p1) (close_pair (mStdOut p1) (close_pair (mStdIn p1) p1))
     in p2\<lparr>mStdIn := (INVALID_HANDLE_VALUE, INVALID_HANDLE_VALUE),
           mStdOut := (INVALID_HANDLE_VALUE, INVALID_HANDLE_VALUE),
           mStdErr := (INVALID_HANDLE_VALUE, INVALID_HANDLE_VALUE),
           mthStdout := None, mthStderr := None\<rparr>)"

text \<open>
  Two callers of \<open>waitForProcessToFinish\<close> at once: the destructor on the owning thread
  and the stdout reader, which calls it after its loop while the destructor has not
  joined it yet. A schedule names, step by step, the caller that runs its next
  statement; \<open>True\<close> is the first caller.
\<close>

fun interleave :: "bool list \<Rightarrow> place \<times> place \<times> Process \<Rightarrow> place \<times> place \<times> Process" where
  "interleave [] s = s"
| "interleave (True # schedule) (a, b, p) =
    (case wait_step a p of (a', p') \<Rightarrow> interleave schedule (a', b, p'))"
| "interleave (False # schedule) (a, b, p) =
    (case wait_step b p of (b', p') \<Rightarrow> interleave schedule (a, b', p'))"

text \<open>A child that wrote to both streams and exited, and the answers of the system to a spawn that works.\<close>

definition example_child :: Child where
  "example_child = \<lparr>child_stdout = [[111, 117, 116]], child_stderr = [[101, 114, 114]], child_exit = 0\<rparr>"

definition all_ok :: Outcomes where
  "all_ok = \<lparr>pipeIn = True, pipeOut = True, pipeErr = True,
             infoIn = True, infoOut = True, infoErr = True, launch = True\<rparr>"

text \<open>The process object after a spawn that worked, before any thread has run.\<close>

definition example_started :: Process where
  "example_started =
    (case startInternal all_ok example_child Process_new of
       Inr (state, p) \<Rightarrow> p
     | Inl f \<Rightarrow> Process_new)"

section \<open>Properties of the reassembly queue\<close>

lemma fold_bufferSize:
  "fold (\<lambda>buffer sz. sz + of_nat (length buffer)) buffers (acc :: 32 word)
     = acc + of_nat (length (concat buffers))"
  by (induction buffers arbitrary: acc) (simp_all add: add.assoc)

lemma bufferSize_concat: "bufferSize buffers = of_nat (length (concat buffers))"
  by (simp add: bufferSize_def fold_bufferSize)

lemma unat_bufferSize_le: "unat (bufferSize buffers) \<le> length (concat buffers)"
  by (simp add: bufferSize_concat unat_of_nat)

lemma bufferRead_loop_correct:
  "0 < rem \<Longrightarrow> rem \<le> length (concat buffers) \<Longrightarrow> num + rem = unat sz \<Longrightarrow>
   \<exists>rest. bufferRead_loop buffers out num rem sz
            = Inr (sz, out @ take rem (concat buffers), rest)
        \<and> concat rest = drop rem (concat buffers)"
proof (induction buffers arbitrary: out num rem)
  case Nil
  then show ?case by simp
next
  case (Cons front rest)
  show ?case
  proof (cases "length front \<le> rem")
    case whole: True
    show ?thesis
    proof (cases "rem = length front")
      case True
      with Cons.prems show ?thesis by (simp add: Let_def)
    next
      case False
      with whole have lt: "length front < rem" by simp
      have "\<exists>r. bufferRead_loop rest (out @ front) (num + length front) (rem - length front) sz
                = Inr (sz, (out @ front) @ take (rem - length front) (concat rest), r)
              \<and> concat r = drop (rem - length front) (concat rest)"
        by (rule Cons.IH) (use lt Cons.prems in auto)
      with lt show ?thesis by (auto simp: Let_def min_def)
    qed
  next
    case False
    with Cons.prems show ?thesis by (auto simp: Let_def min_def)
  qed
qed

lemma bufferRead_loop_shape:
  "0 < rem \<Longrightarrow> rem \<le> length (concat buffers) \<Longrightarrow> num + rem = unat sz \<Longrightarrow>
   bufferRead_loop buffers out num rem sz = Inr (r, out', rest) \<Longrightarrow>
   \<exists>k m. k \<le> length buffers
           \<and> (rest = drop k buffers \<or>
                (k < length buffers \<and> 0 < m \<and> m < length (buffers ! k)
                   \<and> rest = drop m (buffers ! k) # drop (Suc k) buffers))"
proof (induction buffers arbitrary: out num rem)
  case Nil
  then show ?case by simp
next
  case (Cons front bs)
  show ?case
  proof (cases "length front \<le> rem")
    case whole: True
    show ?thesis
    proof (cases "rem = length front")
      case True
      with Cons.prems have "rest = drop 1 (front # bs)" by (simp add: Let_def split: if_splits)
      then show ?thesis by (intro exI[of _ 1]) simp
    next
      case False
      with whole have lt: "length front < rem" by simp
      with Cons.prems have run: "bufferRead_loop bs (out @ front) (num + length front) (rem - length front) sz
          = Inr (r, out', rest)" by (simp add: Let_def min_def)
      have "\<exists>k m. k \<le> length bs
           \<and> (rest = drop k bs \<or>
                (k < length bs \<and> 0 < m \<and> m < length (bs ! k)
                   \<and> rest = drop m (bs ! k) # drop (Suc k) bs))"
        by (rule Cons.IH[OF _ _ _ run]) (use lt Cons.prems in auto)
      then obtain k m where km: "k \<le> length bs" "(rest = drop k bs \<or>
                (k < length bs \<and> 0 < m \<and> m < length (bs ! k)
                   \<and> rest = drop m (bs ! k) # drop (Suc k) bs))" by blast
      show ?thesis
        by (rule exI[of _ "Suc k"], rule exI[of _ m]) (use km in auto)
    qed
  next
    case False
    with Cons.prems have "rest = drop rem ((front # bs) ! 0) # drop (Suc 0) (front # bs)"
      by (auto simp: Let_def min_def split: if_splits)
    with False Cons.prems show ?thesis
      by (intro exI[of _ 0] exI[of _ rem]) auto
  qed
qed

lemma bufferRead_ok:
  assumes "unat n \<le> unat (bufferSize buffers)"
  shows "\<exists>rest. bufferRead buffers n = Inr (n, take (unat n) (concat buffers), rest)
           \<and> concat rest = drop (unat n) (concat buffers)"
proof (cases "n = 0")
  case True
  then show ?thesis by (simp add: bufferRead_def)
next
  case False
  then have pos: "0 < unat n" by (simp add: unat_gt_0)
  have le: "unat n \<le> length (concat buffers)"
    using assms unat_bufferSize_le [of buffers] by (rule order_trans)
  have "\<exists>rest. bufferRead_loop buffers [] 0 (unat n) n
            = Inr (n, [] @ take (unat n) (concat buffers), rest)
        \<and> concat rest = drop (unat n) (concat buffers)"
    using pos le by (rule bufferRead_loop_correct) simp
  with False show ?thesis by (simp add: bufferRead_def)
qed

text \<open>
  C6. Whenever the queue holds at least \<open>n\<close> bytes (\<open>bufferSize\<close>, the \<open>totalBytes()\<close> of
  the spec), \<open>bufferRead\<close> returns \<open>n\<close>, copies to the caller's buffer exactly the first
  \<open>n\<close> bytes of the concatenation of the chunks in arrival order, and leaves a queue
  whose concatenation is the original one without its first \<open>n\<close> bytes. The queue left
  is the original queue with its first \<open>k\<close> chunks removed, or with \<open>k\<close> chunks removed
  and the next one shrunk to its bytes from position \<open>m\<close> on.
\<close>

theorem bufferRead_consume:
  assumes "unat n \<le> unat (bufferSize buffers)"
  shows "\<exists>rest k m. bufferRead buffers n = Inr (n, take (unat n) (concat buffers), rest)
           \<and> concat rest = drop (unat n) (concat buffers)
           \<and> k \<le> length buffers
           \<and> (rest = drop k buffers \<or>
                (k < length buffers \<and> 0 < m \<and> m < length (buffers ! k)
                   \<and> rest = drop m (buffers ! k) # drop (Suc k) buffers))"
proof (cases "n = 0")
  case True
  then have "bufferRead buffers n = Inr (n, take (unat n) (concat buffers), buffers)"
    by (simp add: bufferRead_def)
  moreover have "concat buffers = drop (unat n) (concat buffers)"
    using True by simp
  moreover have "buffers = drop 0 buffers" by simp
  ultimately show ?thesis by blast
next
  case False
  then have pos: "0 < unat n" by (simp add: unat_gt_0)
  have le: "unat n \<le> length (concat buffers)"
    using assms unat_bufferSize_le [of buffers] by (rule order_trans)
  obtain rest where r: "bufferRead buffers n = Inr (n, take (unat n) (concat buffers), rest)"
    and c: "concat rest = drop (unat n) (concat buffers)"
    using bufferRead_ok [OF assms] by blast
  from r False have loop: "bufferRead_loop buffers [] 0 (unat n) n
      = Inr (n, take (unat n) (concat buffers), rest)"
    by (simp add: bufferRead_def)
  have "\<exists>k m. k \<le> length buffers
           \<and> (rest = drop k buffers \<or>
                (k < length buffers \<and> 0 < m \<and> m < length (buffers ! k)
                   \<and> rest = drop m (buffers ! k) # drop (Suc k) buffers))"
    using pos le _ loop by (rule bufferRead_loop_shape) simp
  with r c show ?thesis by blast
qed

theorem bufferRead_consume_witness:
  "unat (4 :: 32 word) \<le> unat (bufferSize [[1, 2], [], [3, 4, 5], [6]])
   \<and> (\<exists>rest k m. bufferRead [[1, 2], [], [3, 4, 5], [6]] 4
           = Inr (4, take (unat (4 :: 32 word)) (concat [[1, 2], [], [3, 4, 5], [6]]), rest)
         \<and> concat rest = drop (unat (4 :: 32 word)) (concat [[1, 2], [], [3, 4, 5], [6]])
         \<and> k \<le> length [[1, 2], [], [3, 4, 5], [6 :: byte]]
         \<and> (rest = drop k [[1, 2], [], [3, 4, 5], [6]] \<or>
              (k < length [[1, 2], [], [3, 4, 5], [6 :: byte]] \<and> 0 < m
                 \<and> m < length ([[1, 2], [], [3, 4, 5], [6 :: byte]] ! k)
                 \<and> rest = drop m ([[1, 2], [], [3, 4, 5], [6]] ! k)
                      # drop (Suc k) [[1, 2], [], [3, 4, 5], [6]])))"
proof -
  have h: "unat (4 :: 32 word) \<le> unat (bufferSize [[1, 2], [], [3, 4, 5], [6]])"
    by (simp add: bufferSize_def)
  show ?thesis using h bufferRead_consume [OF h] by blast
qed

text \<open>
  Two calls in a row: the second continues where the first stopped, so the bytes of
  both calls together are the first \<open>n1 + n2\<close> bytes of the concatenation.
\<close>

lemma bufferRead_twice:
  assumes "unat n1 \<le> unat (bufferSize buffers)"
    and "bufferRead buffers n1 = Inr (r1, out1, rest1)"
    and "unat n2 \<le> unat (bufferSize rest1)"
  shows "\<exists>rest2. bufferRead rest1 n2 = Inr (n2, take (unat n2) (drop (unat n1) (concat buffers)), rest2)
          \<and> out1 @ take (unat n2) (drop (unat n1) (concat buffers))
               = take (unat n1 + unat n2) (concat buffers)
          \<and> concat rest2 = drop (unat n1 + unat n2) (concat buffers)"
proof -
  from bufferRead_ok [OF assms(1)] assms(2)
  have o1: "out1 = take (unat n1) (concat buffers)"
    and c1: "concat rest1 = drop (unat n1) (concat buffers)"
    by auto
  from bufferRead_ok [OF assms(3)] obtain rest2 where
    "bufferRead rest1 n2 = Inr (n2, take (unat n2) (concat rest1), rest2)"
    "concat rest2 = drop (unat n2) (concat rest1)"
    by blast
  then show ?thesis
    by (simp add: o1 c1 take_add add.commute)
qed

section \<open>Properties of the framed transport\<close>

text \<open>
  C10. An empty message is accepted whatever the state of the transport and whatever
  the stream would answer: \<open>send\<close> returns success and leaves the whole state as it
  was, so nothing is written, \<open>mPendingWrite\<close> keeps its value and no error is logged,
  on a disconnected stream too.
\<close>

theorem send_empty_message:
  "send okHeader okData ident [] c = (True, c)"
  by (simp add: send_def)

lemma sint_add_of_nat:
  fixes w :: "32 word"
  assumes "0 \<le> sint w" "sint w + int n < 2 ^ 31"
  shows "sint (w + of_nat n) = sint w + int n"
proof -
  have "w + of_nat n = word_of_int (sint w + int n)"
    by simp
  then have "sint (w + of_nat n) = signed_take_bit 31 (sint w + int n)"
    by (simp only: sint_sbintrunc') simp
  also have "\<dots> = sint w + int n"
    by (rule signed_take_bit_int_eq_self) (use assms in auto)
  finally show ?thesis .
qed

lemma sint_sub_nonneg:
  fixes w b :: "32 word"
  assumes "0 \<le> sint b" "sint b \<le> sint w"
  shows "sint (w - b) = sint w - sint b"
proof -
  have "sint w < 2 ^ 31" using sint_lt [of w] by simp
  then have "- (2 ^ 31) \<le> sint w - sint b" "sint w - sint b < 2 ^ 31"
    using assms by auto
  then have "signed_take_bit 31 (sint w - sint b) = sint w - sint b"
    by (rule signed_take_bit_int_eq_self)
  then show ?thesis by (simp add: sint_word_diff)
qed

lemma length_serialize_int: "length (serialize_int w) = 4"
  by (simp add: serialize_int_def)


lemma send_accounting:
  assumes "send okHeader okData ident message c = (True, c')"
    and "0 \<le> sint (mPendingWrite c)"
    and "sint (mPendingWrite c) + int (frameBytes (mSilent c) (Send okHeader okData ident message)) < 2 ^ 31"
  shows "sint (mPendingWrite c') =
           sint (mPendingWrite c) + int (frameBytes (mSilent c) (Send okHeader okData ident message))
         \<and> wireBytes c' = wireBytes c + frameBytes (mSilent c) (Send okHeader okData ident message)
         \<and> mSilent c' = mSilent c"
proof (cases "message = [] \<or> mSilent c")
  case True
  with assms(1) show ?thesis
    by (auto simp: send_def emit_def split: if_splits)
next
  case False
  then have fb: "frameBytes (mSilent c) (Send okHeader okData ident message) = 4 + (4 + length message)"
    by simp
  from False assms(1) have ok: "okHeader" "okData" and conn: "isConnected (mClient c)"
    by (auto simp: send_def emit_def client_write_def Let_def split: if_splits prod.splits)
  from False ok conn assms(1) have c': "c' = c\<lparr>mPendingWrite := mPendingWrite c + of_nat (4 + (4 + length message)),
        mClient := (mClient c)\<lparr>written := written (mClient c)
           @ [serialize_int (of_nat (4 + length message))] @ [serialize_int ident @ message]\<rparr>\<rparr>"
    by (simp add: send_def client_write_def Let_def length_serialize_int)
  have "sint (mPendingWrite c + of_nat (4 + (4 + length message)))
          = sint (mPendingWrite c) + int (4 + (4 + length message))"
    by (rule sint_add_of_nat) (use assms(2,3) fb in auto)
  with c' fb show ?thesis
    by (simp add: wireBytes_def length_serialize_int)
qed

lemma dataWritten_accounting:
  assumes "dataWritten bytes c = Inr c'"
    and "0 \<le> sint bytes"
    and "0 \<le> sint (mPendingWrite c)"
  shows "sint (mPendingWrite c') = sint (mPendingWrite c) - sint bytes
         \<and> 0 \<le> sint (mPendingWrite c')
         \<and> wireBytes c' = wireBytes c \<and> mSilent c' = mSilent c"
proof -
  from assms(1) have le: "sint bytes \<le> sint (mPendingWrite c)"
    by (auto simp: dataWritten_def split: if_splits)
  have s: "sint (mPendingWrite c - bytes) = sint (mPendingWrite c) - sint bytes"
    using assms(2) le by (rule sint_sub_nonneg)
  from assms(1) le have "mPendingWrite c' = mPendingWrite c - bytes
      \<and> wireBytes c' = wireBytes c \<and> mSilent c' = mSilent c"
    by (auto simp: dataWritten_def emit_def client_close_def wireBytes_def Let_def split: if_splits)
  with s le show ?thesis by simp
qed

lemma run_accounting:
  "run ops c = Inr (rs, c') \<Longrightarrow> list_all (\<lambda>r. r) rs \<Longrightarrow>
   list_all (\<lambda>x. 0 \<le> ackBytes x) ops \<Longrightarrow>
   0 \<le> sint (mPendingWrite c) \<Longrightarrow>
   (\<forall>k\<le>length ops. sint (mPendingWrite c) + int (enqueued (mSilent c) (take k ops))
        - acknowledged (take k ops) < 2 ^ 31) \<Longrightarrow>
   sint (mPendingWrite c') = sint (mPendingWrite c) + int (enqueued (mSilent c) ops) - acknowledged ops
   \<and> 0 \<le> sint (mPendingWrite c')
   \<and> wireBytes c' = wireBytes c + enqueued (mSilent c) ops"
proof (induction ops arbitrary: c rs)
  case Nil
  then show ?case by (simp add: enqueued_def acknowledged_def)
next
  case (Cons x xs)
  from Cons.prems(1) obtain r1 c1 r2 where
    st: "step x c = Inr (r1, c1)" and rn: "run xs c1 = Inr (r2, c')" and rs: "rs = r1 @ r2"
    by (auto split: sum.splits prod.splits)
  from rs Cons.prems(2) have a1: "list_all (\<lambda>r. r) r1" and a2: "list_all (\<lambda>r. r) r2"
    by simp_all
  from Cons.prems(3) have k1: "0 \<le> ackBytes x" and k2: "list_all (\<lambda>x. 0 \<le> ackBytes x) xs"
    by simp_all
  have e: "enqueued (mSilent c) (x # xs) = frameBytes (mSilent c) x + enqueued (mSilent c) xs"
    by (simp add: enqueued_def)
  have a: "acknowledged (x # xs) = ackBytes x + acknowledged xs"
    by (simp add: acknowledged_def)
  have b1: "sint (mPendingWrite c) + int (frameBytes (mSilent c) x) - ackBytes x < 2 ^ 31"
    using Cons.prems(5) [rule_format, of 1] by (simp add: enqueued_def acknowledged_def)
  have bk: "sint (mPendingWrite c) + int (frameBytes (mSilent c) x) - ackBytes x
        + int (enqueued (mSilent c) (take k xs)) - acknowledged (take k xs) < 2 ^ 31"
    if "k \<le> length xs" for k
    using Cons.prems(5) [rule_format, of "Suc k"] that
    by (simp add: enqueued_def acknowledged_def)
  have one: "sint (mPendingWrite c1) = sint (mPendingWrite c) + int (frameBytes (mSilent c) x) - ackBytes x
         \<and> 0 \<le> sint (mPendingWrite c1)
         \<and> wireBytes c1 = wireBytes c + frameBytes (mSilent c) x \<and> mSilent c1 = mSilent c"
  proof (cases x)
    case (Send okHeader okData ident message)
    with st a1 have "send okHeader okData ident message c = (True, c1)"
      by (auto split: prod.splits)
    then have "sint (mPendingWrite c1) =
           sint (mPendingWrite c) + int (frameBytes (mSilent c) (Send okHeader okData ident message))
         \<and> wireBytes c1 = wireBytes c + frameBytes (mSilent c) (Send okHeader okData ident message)
         \<and> mSilent c1 = mSilent c"
      by (rule send_accounting) (use Cons.prems(4) b1 Send in auto)
    with Send Cons.prems(4) show ?thesis by auto
  next
    case (BytesWritten bytes)
    with st have "dataWritten bytes c = Inr c1"
      by (auto split: sum.splits)
    then have "sint (mPendingWrite c1) = sint (mPendingWrite c) - sint bytes
         \<and> 0 \<le> sint (mPendingWrite c1)
         \<and> wireBytes c1 = wireBytes c \<and> mSilent c1 = mSilent c"
      by (rule dataWritten_accounting) (use k1 BytesWritten Cons.prems(4) in auto)
    with BytesWritten show ?thesis by simp
  qed
  have "sint (mPendingWrite c') = sint (mPendingWrite c1) + int (enqueued (mSilent c1) xs) - acknowledged xs
   \<and> 0 \<le> sint (mPendingWrite c')
   \<and> wireBytes c' = wireBytes c1 + enqueued (mSilent c1) xs"
    by (rule Cons.IH [OF rn a2 k2]) (use one bk in auto)
  with one e a show ?case by simp
qed



lemma run_append:
  "run (xs @ ys) c =
    (case run xs c of
       Inl e \<Rightarrow> Inl e
     | Inr (rs, c') \<Rightarrow>
         (case run ys c' of Inl e \<Rightarrow> Inl e | Inr (rs', c'') \<Rightarrow> Inr (rs @ rs', c'')))"
  by (induction xs arbitrary: c) (auto split: sum.splits prod.splits)

text \<open>
  A send that writes hands the stream the frame of the wire format, header first.
\<close>

lemma send_writes_frame:
  assumes "message \<noteq> []" "isConnected (mClient c)" "\<not> mSilent c"
  shows "send True True ident message c
     = (True, c\<lparr>mPendingWrite := mPendingWrite c + of_nat (length (encode ident message)),
                 mClient := (mClient c)\<lparr>written := written (mClient c)
                    @ [serialize_int (of_nat (4 + length message)), serialize_int ident @ message]\<rparr>\<rparr>)
     \<and> serialize_int (of_nat (4 + length message)) @ (serialize_int ident @ message)
         = encode ident message"
  using assms
  by (simp add: send_def client_write_def Let_def encode_def length_serialize_int)

text \<open>
  Every feasible history on a connected transport whose Finished flag is not set runs
  without a failed assertion, and all its sends are accepted.
\<close>

lemma send_feasible:
  assumes "isConnected (mClient c)" "\<not> mDone c"
  shows "\<exists>c'. send True True ident message c = (True, c')
           \<and> isConnected (mClient c') \<and> \<not> mDone c'"
  using assms by (auto simp: send_def client_write_def Let_def)

lemma dataWritten_feasible:
  assumes "isConnected (mClient c)" "\<not> mDone c" "sint bytes \<le> sint (mPendingWrite c)"
  shows "\<exists>c'. dataWritten bytes c = Inr c' \<and> isConnected (mClient c') \<and> \<not> mDone c'"
  using assms by (auto simp: dataWritten_def emit_def Let_def)

lemma run_total:
  "isConnected (mClient c) \<Longrightarrow> \<not> mDone c \<Longrightarrow> 0 \<le> sint (mPendingWrite c) \<Longrightarrow>
   feasible (mSilent c) (sint (mPendingWrite c)) ops \<Longrightarrow>
   \<exists>rs c'. run ops c = Inr (rs, c') \<and> list_all (\<lambda>r. r) rs
      \<and> list_all (\<lambda>x. 0 \<le> ackBytes x) ops"
proof (induction ops arbitrary: c)
  case Nil
  then show ?case by simp
next
  case (Cons x xs)
  show ?case
  proof (cases x)
    case (Send okHeader okData ident message)
    with Cons.prems(4) have ok: "okHeader" "okData"
      and b: "sint (mPendingWrite c) + int (frameBytes (mSilent c) x) < 2 ^ 31"
      and f: "feasible (mSilent c) (sint (mPendingWrite c) + int (frameBytes (mSilent c) x)) xs"
      by simp_all
    from send_feasible [OF Cons.prems(1,2), of ident message] obtain c1 where
      s1: "send True True ident message c = (True, c1)"
      and k: "isConnected (mClient c1)" "\<not> mDone c1" by blast
    have acc: "sint (mPendingWrite c1) = sint (mPendingWrite c) + int (frameBytes (mSilent c) x)
         \<and> wireBytes c1 = wireBytes c + frameBytes (mSilent c) x \<and> mSilent c1 = mSilent c"
    proof -
      have s1': "send okHeader okData ident message c = (True, c1)" using s1 ok by simp
      show ?thesis
        unfolding Send by (rule send_accounting [OF s1']) (use Cons.prems(3) b Send in auto)
    qed
    have "\<exists>rs c'. run xs c1 = Inr (rs, c') \<and> list_all (\<lambda>r. r) rs
      \<and> list_all (\<lambda>x. 0 \<le> ackBytes x) xs"
      by (rule Cons.IH [OF k]) (use acc f Cons.prems(3) in auto)
    with s1 ok Send show ?thesis by auto
  next
    case (BytesWritten bytes)
    with Cons.prems(4) have b: "0 \<le> sint bytes" "sint bytes \<le> sint (mPendingWrite c)"
      and f: "feasible (mSilent c) (sint (mPendingWrite c) - sint bytes) xs"
      by simp_all
    from dataWritten_feasible [OF Cons.prems(1,2) b(2)] obtain c1 where
      d1: "dataWritten bytes c = Inr c1"
      and k: "isConnected (mClient c1)" "\<not> mDone c1" by blast
    have acc: "sint (mPendingWrite c1) = sint (mPendingWrite c) - sint bytes
         \<and> 0 \<le> sint (mPendingWrite c1)
         \<and> wireBytes c1 = wireBytes c \<and> mSilent c1 = mSilent c"
      by (rule dataWritten_accounting [OF d1 b(1) Cons.prems(3)])
    have "\<exists>rs c'. run xs c1 = Inr (rs, c') \<and> list_all (\<lambda>r. r) rs
      \<and> list_all (\<lambda>x. 0 \<le> ackBytes x) xs"
      by (rule Cons.IH [OF k]) (use acc f in auto)
    with d1 b BytesWritten show ?thesis by auto
  qed
qed

text \<open>
  C7, as amended. Take a history of sends and write-completion notifications that runs
  without a failed assertion from a state with \<open>mPendingWrite = 0\<close>, in which every
  send was accepted (returned true) and every notification carries a count that is not
  negative. Let \<open>pre\<close> be a prefix of it along which the bytes pending (enqueued minus
  acknowledged) stay below \<open>2 ^ 31\<close>; the total enqueued over the life of the
  connection is not bounded. Then after \<open>pre\<close>, \<open>pendingWrite()\<close> is the bytes enqueued
  so far (header plus payload' of each send that writes) minus the bytes acknowledged
  so far; it is not negative, it is 0 exactly when everything enqueued has been
  acknowledged, and the bytes enqueued are the bytes handed to the stream. By
  \<open>run_total\<close> every feasible history is such a history.
\<close>

theorem pendingWrite_accounting:
  assumes "run (pre @ post) c = Inr (rs, c')"
    and "list_all (\<lambda>r. r) rs"
    and "list_all (\<lambda>x. 0 \<le> ackBytes x) (pre @ post)"
    and "mPendingWrite c = 0"
    and "\<forall>k\<le>length pre. int (enqueued (mSilent c) (take k pre)) - acknowledged (take k pre) < 2 ^ 31"
  shows "\<exists>rs1 c1. run pre c = Inr (rs1, c1)
          \<and> pendingWrite c1 = int (enqueued (mSilent c) pre) - acknowledged pre
          \<and> 0 \<le> pendingWrite c1
          \<and> (pendingWrite c1 = 0 \<longleftrightarrow> acknowledged pre = int (enqueued (mSilent c) pre))
          \<and> wireBytes c1 = wireBytes c + enqueued (mSilent c) pre"
proof -
  from assms(1) obtain rs1 c1 rs2 where
    r1: "run pre c = Inr (rs1, c1)" and rs: "rs = rs1 @ rs2"
    by (auto simp: run_append split: sum.splits prod.splits)
  from rs assms(2) have acc: "list_all (\<lambda>r. r) rs1" by simp
  from assms(3) have cnt: "list_all (\<lambda>x. 0 \<le> ackBytes x) pre" by simp
  have bound: "\<forall>k\<le>length pre. sint (mPendingWrite c) + int (enqueued (mSilent c) (take k pre))
        - acknowledged (take k pre) < 2 ^ 31"
    using assms(4,5) by simp
  have z: "0 \<le> sint (mPendingWrite c)" using assms(4) by simp
  have "sint (mPendingWrite c1) = sint (mPendingWrite c) + int (enqueued (mSilent c) pre) - acknowledged pre
   \<and> 0 \<le> sint (mPendingWrite c1)
   \<and> wireBytes c1 = wireBytes c + enqueued (mSilent c) pre"
    using r1 acc cnt z bound by (rule run_accounting)
  with r1 assms(4) show ?thesis by (auto simp: pendingWrite_def)
qed

text \<open>
  The witness is a connection that sends 1 GiB twice, each acknowledged in full before
  the next: 2 GiB enqueued in all, never more than 1 GiB pending.
\<close>

theorem pendingWrite_accounting_witness:
  "(\<exists>rs c'. run ([Send True True 1 (replicate 1073741816 0), BytesWritten 1073741824,
                  Send True True 2 (replicate 1073741816 0), BytesWritten 1073741824] @ [])
               example_connection = Inr (rs, c')
            \<and> list_all (\<lambda>r. r) rs)
   \<and> list_all (\<lambda>x. 0 \<le> ackBytes x)
        ([Send True True 1 (replicate 1073741816 0), BytesWritten 1073741824,
          Send True True 2 (replicate 1073741816 0), BytesWritten 1073741824] @ [])
   \<and> mPendingWrite example_connection = 0
   \<and> list_all (\<lambda>k.
         int (enqueued (mSilent example_connection)
               (take k [Send True True 1 (replicate 1073741816 0), BytesWritten 1073741824,
                        Send True True 2 (replicate 1073741816 0), BytesWritten 1073741824]))
         - acknowledged
               (take k [Send True True 1 (replicate 1073741816 0), BytesWritten 1073741824,
                        Send True True 2 (replicate 1073741816 0), BytesWritten 1073741824])
         < 2 ^ 31) [0, 1, 2, 3, 4]
   \<and> (\<exists>rs1 c1. run [Send True True 1 (replicate 1073741816 0), BytesWritten 1073741824,
                    Send True True 2 (replicate 1073741816 0), BytesWritten 1073741824]
                   example_connection = Inr (rs1, c1)
          \<and> pendingWrite c1 = 0 \<and> wireBytes c1 = 2147483648)"
proof -
  let ?c = "example_connection"
  let ?pre = "[Send True True 1 (replicate 1073741816 0), BytesWritten 1073741824,
               Send True True 2 (replicate 1073741816 0), BytesWritten 1073741824]"
  have "\<exists>rs c'. run (?pre @ []) ?c = Inr (rs, c') \<and> list_all (\<lambda>r. r) rs"
    by (simp add: send_def dataWritten_def client_write_def emit_def serialize_int_def
          Let_def example_connection_def)
  then obtain rs c' where h1: "run (?pre @ []) ?c = Inr (rs, c')"
    and h2: "list_all (\<lambda>r. r) rs" by blast
  have h3: "list_all (\<lambda>x. 0 \<le> ackBytes x) (?pre @ [])" by simp
  have h4: "mPendingWrite ?c = 0" by (simp add: example_connection_def)
  have h5: "\<forall>k\<le>length ?pre. int (enqueued (mSilent ?c) (take k ?pre))
        - acknowledged (take k ?pre) < 2 ^ 31"
    by (auto simp: le_Suc_eq enqueued_def acknowledged_def example_connection_def)
  have e: "enqueued (mSilent ?c) ?pre = 2147483648" "acknowledged ?pre = 2147483648"
    "wireBytes ?c = 0"
    by (simp_all add: enqueued_def acknowledged_def wireBytes_def example_connection_def)
  from pendingWrite_accounting [OF h1 h2 h3 h4 h5]
  have "\<exists>rs1 c1. run ?pre ?c = Inr (rs1, c1) \<and> pendingWrite c1 = 0 \<and> wireBytes c1 = 2147483648"
    unfolding e by auto
  moreover have "list_all (\<lambda>k. int (enqueued (mSilent ?c) (take k ?pre))
        - acknowledged (take k ?pre) < 2 ^ 31) [0, 1, 2, 3, 4]"
    by (simp add: enqueued_def acknowledged_def example_connection_def)
  ultimately show ?thesis using h1 h2 h3 h4 by blast
qed

text \<open>
  C7 as stated fails where the counter overflows: two accepted sends of 1 GiB each, not
  yet acknowledged, enqueue \<open>2 ^ 31\<close> bytes, and \<open>pendingWrite()\<close> is \<open>- 2 ^ 31\<close>.
\<close>

theorem pendingWrite_overflow_counterexample:
  "run [Send True True 1 (replicate 1073741816 0), Send True True 2 (replicate 1073741816 0)]
      example_connection
    = Inr ([True, True],
        example_connection\<lparr>mPendingWrite := 2147483648,
          mClient := (mClient example_connection)\<lparr>written :=
            [[63, 255, 255, 252], [0, 0, 0, 1] @ replicate 1073741816 0,
             [63, 255, 255, 252], [0, 0, 0, 2] @ replicate 1073741816 0]\<rparr>\<rparr>)
   \<and> pendingWrite (example_connection\<lparr>mPendingWrite := 2147483648,
          mClient := (mClient example_connection)\<lparr>written :=
            [[63, 255, 255, 252], [0, 0, 0, 1] @ replicate 1073741816 0,
             [63, 255, 255, 252], [0, 0, 0, 2] @ replicate 1073741816 0]\<rparr>\<rparr>)
       = - 2147483648
   \<and> int (enqueued (mSilent example_connection)
         [Send True True 1 (replicate 1073741816 0), Send True True 2 (replicate 1073741816 0)])
      - acknowledged
         [Send True True 1 (replicate 1073741816 0), Send True True 2 (replicate 1073741816 0)]
      = 2147483648"
  by (simp add: send_def client_write_def serialize_int_def Let_def example_connection_def
        pendingWrite_def enqueued_def acknowledged_def)

text \<open>
  C8. In a state whose \<open>mPendingWrite\<close> is not negative: (a) when \<open>mPendingWrite\<close> is 0
  and the transport is alive, \<open>finish()\<close> sets the Finished flag, closes the stream
  and hands the transport to \<open>EventLoop::deleteLater\<close>, emitting neither \<open>SendComplete\<close>
  nor \<open>Destroyed\<close>: the transport is still alive when \<open>finish()\<close> returns and is
  destroyed by the next turn of the event loop; (b) a write-completion notification
  with count \<open>bytes\<close> emits \<open>SendComplete\<close> exactly when it brings \<open>mPendingWrite\<close> to 0
  and \<open>bytes\<close> is greater than 0, and schedules the destruction exactly when it brings
  \<open>mPendingWrite\<close> to 0 and the Finished flag is set; it never destroys the transport.
\<close>

theorem finish_and_sendComplete:
  fixes c :: "'m Connection"
  assumes "0 \<le> sint (mPendingWrite c)"
  shows "(mPendingWrite c = 0 \<and> \<not> destroyed c \<longrightarrow>
           (\<exists>c'. finish c = Inr c'
              \<and> c' = c\<lparr>mClient := client_close (mClient c), mDone := True,
                        trace := trace c @ [DeleteLater]\<rparr>
              \<and> closed (mClient c') \<and> \<not> destroyed c' \<and> destroyed (eventLoopTurn c')))
       \<and> (\<forall>c'. dataWritten bytes c = Inr c' \<longrightarrow>
             destroyed c' = destroyed c
           \<and> trace c' = trace c
                @ (if mPendingWrite c' = 0 \<and> 0 < sint bytes then [SendComplete] else [])
                @ (if mPendingWrite c' = 0 \<and> mDone c then [DeleteLater] else []))"
proof (intro conjI impI allI)
  assume "mPendingWrite c = 0 \<and> \<not> destroyed c"
  then show "\<exists>c'. finish c = Inr c'
              \<and> c' = c\<lparr>mClient := client_close (mClient c), mDone := True,
                        trace := trace c @ [DeleteLater]\<rparr>
              \<and> closed (mClient c') \<and> \<not> destroyed c' \<and> destroyed (eventLoopTurn c')"
    by (simp add: finish_def dataWritten_def emit_def client_close_def eventLoopTurn_def
          destructor_def)
next
  fix c' assume r: "dataWritten bytes c = Inr c'"
  then show "destroyed c' = destroyed c"
    by (auto simp: dataWritten_def emit_def Let_def split: if_splits)
next
  fix c' assume r: "dataWritten bytes c = Inr c'"
  then have le: "sint bytes \<le> sint (mPendingWrite c)"
    by (auto simp: dataWritten_def split: if_splits)
  from r le have p: "mPendingWrite c' = mPendingWrite c - bytes"
    by (auto simp: dataWritten_def emit_def Let_def split: if_splits)
  have pos: "0 < sint bytes \<longleftrightarrow> bytes \<noteq> 0" if "mPendingWrite c' = 0"
  proof -
    from that p have "bytes = mPendingWrite c" by simp
    with assms have "0 \<le> sint bytes" by simp
    moreover have "sint bytes = 0 \<longleftrightarrow> bytes = 0" by (rule signed_eq_0_iff)
    ultimately show ?thesis by fastforce
  qed
  show "trace c' = trace c
                @ (if mPendingWrite c' = 0 \<and> 0 < sint bytes then [SendComplete] else [])
                @ (if mPendingWrite c' = 0 \<and> mDone c then [DeleteLater] else [])"
  proof (cases "mPendingWrite c' = 0")
    case True
    with p have z: "mPendingWrite c - bytes = 0" by simp
    from pos [OF True] r le z show ?thesis
      by (auto simp: dataWritten_def emit_def Let_def True split: if_splits)
  next
    case False
    with p have z: "mPendingWrite c - bytes \<noteq> 0" by simp
    with r le False show ?thesis
      by (auto simp: dataWritten_def emit_def Let_def split: if_splits)
  qed
qed


theorem finish_and_sendComplete_witness:
  "0 \<le> sint (mPendingWrite example_connection)
   \<and> mPendingWrite example_connection = 0
   \<and> \<not> destroyed example_connection
   \<and> (\<exists>c'. finish example_connection = Inr c'
          \<and> closed (mClient c') \<and> \<not> destroyed c' \<and> trace c' = [DeleteLater]
          \<and> destroyed (eventLoopTurn c'))
   \<and> (\<exists>c'. dataWritten 0 example_connection = Inr c' \<and> trace c' = [])
   \<and> 0 \<le> sint (mPendingWrite (snd (send True True 7 [1, 2, 3] example_connection)))
   \<and> (\<exists>c'. dataWritten 11 (snd (send True True 7 [1, 2, 3] example_connection)) = Inr c'
          \<and> mPendingWrite c' = 0 \<and> trace c' = [SendComplete])"
proof -
  let ?c = "example_connection"
  let ?d = "snd (send True True 7 [1, 2, 3] example_connection)"
  have h: "0 \<le> sint (mPendingWrite ?c)" by (simp add: example_connection_def)
  have z: "mPendingWrite ?c = 0 \<and> \<not> destroyed ?c" by (simp add: example_connection_def)
  have t: "trace ?c = []" "mDone ?c = False" by (simp_all add: example_connection_def)
  obtain c' where d: "dataWritten 0 ?c = Inr c'"
    by (simp add: dataWritten_def example_connection_def)
  from finish_and_sendComplete [OF h, of 0] z d t
  have first: "(\<exists>c'. finish ?c = Inr c'
          \<and> closed (mClient c') \<and> \<not> destroyed c' \<and> trace c' = [DeleteLater]
          \<and> destroyed (eventLoopTurn c'))
      \<and> trace c' = []"
    by auto
  have p: "mPendingWrite ?d = 11" "trace ?d = []" "mDone ?d = False"
    by (simp_all add: send_def client_write_def serialize_int_def Let_def example_connection_def)
  then have h': "0 \<le> sint (mPendingWrite ?d)" by simp
  obtain c'' where d': "dataWritten 11 ?d = Inr c''" and p': "mPendingWrite c'' = 0"
    using p by (simp add: dataWritten_def Let_def emit_def)
  from finish_and_sendComplete [OF h', of 11] d' p p'
  have second: "trace c'' = [SendComplete]" by simp
  from h z d first h' d' p' second show ?thesis by blast
qed

lemma dataAvailable_once:
  "dataAvailable create c =
    (if buffer (mClient c) = [] then Inr c
     else (case dataAvailable_body create c of Inl e \<Rightarrow> Inl e | Inr (go, c') \<Rightarrow> Inr c'))"
proof (cases "buffer (mClient c) = []")
  case True
  then show ?thesis by (subst dataAvailable.simps) simp
next
  case False
  show ?thesis
  proof (cases "dataAvailable_body create c")
    case (Inl e)
    with False show ?thesis by (subst dataAvailable.simps) simp
  next
    case (Inr r)
    obtain go c' where r: "r = (go, c')" by (cases r)
    with Inr have "buffer (mClient c') = []" by (auto dest: dataAvailable_body_buffer)
    then have "dataAvailable create c' = Inr c'" by (subst dataAvailable.simps) simp
    with False Inr r show ?thesis by (subst dataAvailable.simps) (simp split: bool.splits)
  qed
qed


lemma bufferSize_after_read:
  assumes "unat n \<le> unat (bufferSize buffers)"
    and "concat rest = drop (unat n) (concat buffers)"
  shows "bufferSize rest = bufferSize buffers - n"
proof -
  have le: "unat n \<le> length (concat buffers)"
    using assms(1) unat_bufferSize_le [of buffers] by (rule order_trans)
  have "bufferSize rest = of_nat (length (concat buffers) - unat n)"
    by (simp add: bufferSize_concat assms(2))
  also have "\<dots> = of_nat (length (concat buffers)) - of_nat (unat n)"
    using le by (rule of_nat_diff)
  finally show ?thesis by (simp add: bufferSize_concat)
qed

lemma unat_of_nonneg_sint:
  fixes w :: "32 word"
  assumes "0 \<le> sint w"
  shows "int (unat w) = sint w"
proof -
  have "sint w < 2 ^ 31" using sint_lt [of w] by simp
  then have "sint w < 2 ^ 32" by simp
  with assms have "take_bit 32 (sint w) = sint w"
    by (simp add: take_bit_int_eq_self)
  moreover have "uint w = take_bit 32 (sint w)"
    using uint_sint [of w] by simp
  ultimately show ?thesis by simp
qed

lemma readMessage_inv:
  assumes "0 \<le> sint (mPendingRead c)"
  shows "\<exists>go c'. readMessage create c (bufferSize (mBuffers c)) = Inr (go, c')
          \<and> pendingRead_inv c'
          \<and> (mPendingRead c' = 0 \<or> mPendingRead c' = mPendingRead c)"
proof (cases "bufferSize (mBuffers c) < mPendingRead c")
  case True
  with assms show ?thesis by (auto simp: readMessage_def pendingRead_inv_def)
next
  case False
  then have le: "unat (mPendingRead c) \<le> unat (bufferSize (mBuffers c))"
    by (simp add: word_less_nat_alt)
  have small: "\<not> (\<not> 1024 < sint (mPendingRead c) \<and> 1024 < unat (mPendingRead c))"
  proof -
    have "unat (mPendingRead c) = nat (sint (mPendingRead c))"
      using unat_of_nonneg_sint [OF assms] by (metis nat_int)
    then show ?thesis by linarith
  qed
  obtain rest where r: "bufferRead (mBuffers c) (mPendingRead c)
      = Inr (mPendingRead c, take (unat (mPendingRead c)) (concat (mBuffers c)), rest)"
    using bufferRead_ok [OF le] by blast
  from False small r show ?thesis
    by (auto simp: readMessage_def pendingRead_inv_def emit_def Let_def split: option.splits)
qed

lemma dataAvailable_body_inv:
  assumes "pendingRead_inv c"
    and "mPendingRead c \<noteq> 0
         \<or> 0 \<le> sint (deserialize_int (take 4 (concat (mBuffers c) @ buffer (mClient c))))"
  shows "\<exists>go c'. dataAvailable_body create c = Inr (go, c')
          \<and> pendingRead_inv c'
          \<and> (mPendingRead c' = 0 \<or> mPendingRead c' = mPendingRead c
              \<or> mPendingRead c' = deserialize_int (take 4 (concat (mBuffers c) @ buffer (mClient c))))"
proof -
  define c1 where "c1 = c\<lparr>mBuffers := mBuffers c @ [buffer (mClient c)],
                mClient := (mClient c)\<lparr>buffer := []\<rparr>\<rparr>"
  have body: "dataAvailable_body create c =
     (case readHeader c1 (bufferSize (mBuffers c1)) of
          Inl e \<Rightarrow> Inl e
        | Inr None \<Rightarrow> Inr (False, c1)
        | Inr (Some (c2, available')) \<Rightarrow> readMessage create c2 available')"
    unfolding dataAvailable_body_def c1_def Let_def by (rule refl)
  have pr1: "mPendingRead c1 = mPendingRead c" by (simp add: c1_def)
  have cat: "concat (mBuffers c1) = concat (mBuffers c) @ buffer (mClient c)"
    by (simp add: c1_def)
  show ?thesis
  proof (cases "mPendingRead c = 0")
    case False
    then have h: "readHeader c1 (bufferSize (mBuffers c1)) = Inr (Some (c1, bufferSize (mBuffers c1)))"
      by (simp add: readHeader_def pr1)
    from assms(1) have "0 \<le> sint (mPendingRead c1)" by (simp add: pendingRead_inv_def pr1)
    from readMessage_inv [OF this, of create] obtain go c' where
      "readMessage create c1 (bufferSize (mBuffers c1)) = Inr (go, c')"
      "pendingRead_inv c'" "mPendingRead c' = 0 \<or> mPendingRead c' = mPendingRead c1"
      by blast
    then have "dataAvailable_body create c = Inr (go, c') \<and> pendingRead_inv c'
        \<and> (mPendingRead c' = 0 \<or> mPendingRead c' = mPendingRead c)"
      by (simp add: body h pr1)
    then show ?thesis by blast
  next
    case zero: True
    show ?thesis
    proof (cases "bufferSize (mBuffers c1) < 4")
      case True
      then have "readHeader c1 (bufferSize (mBuffers c1)) = Inr None"
        by (simp add: readHeader_def pr1 zero)
      then show ?thesis by (auto simp: body pendingRead_inv_def pr1 zero)
    next
      case False
      then have le: "unat (4 :: 32 word) \<le> unat (bufferSize (mBuffers c1))"
        by (simp add: word_less_nat_alt)
      obtain rest where r: "bufferRead (mBuffers c1) 4
          = Inr (4, take (unat (4 :: 32 word)) (concat (mBuffers c1)), rest)"
        and cr: "concat rest = drop (unat (4 :: 32 word)) (concat (mBuffers c1))"
        using bufferRead_ok [OF le] by blast
      define hdr where "hdr = take 4 (concat (mBuffers c) @ buffer (mClient c))"
      have r': "bufferRead (mBuffers c1) 4 = Inr (4, hdr, rest)"
        using r by (simp only: cat hdr_def) simp
      have av: "bufferSize (mBuffers c1) - 4 = bufferSize rest"
        using bufferSize_after_read [OF le cr] by simp
      define c2 where "c2 = c1\<lparr>mBuffers := rest, mPendingRead := deserialize_int hdr\<rparr>"
      have b2: "mBuffers c2 = rest" by (simp add: c2_def)
      have h: "readHeader c1 (bufferSize (mBuffers c1)) = Inr (Some (c2, bufferSize (mBuffers c2)))"
        using False by (simp add: readHeader_def pr1 zero r' av b2) (simp add: c2_def)
      from assms(2) zero have "0 \<le> sint (mPendingRead c2)" by (simp add: c2_def hdr_def)
      from readMessage_inv [OF this, of create] obtain go c' where
        "readMessage create c2 (bufferSize (mBuffers c2)) = Inr (go, c')"
        "pendingRead_inv c'" "mPendingRead c' = 0 \<or> mPendingRead c' = mPendingRead c2"
        by blast
      moreover have "mPendingRead c2
          = deserialize_int (take 4 (concat (mBuffers c) @ buffer (mClient c)))"
        by (simp add: c2_def hdr_def)
      ultimately have "dataAvailable_body create c = Inr (go, c') \<and> pendingRead_inv c'
        \<and> (mPendingRead c' = 0
           \<or> mPendingRead c' = deserialize_int (take 4 (concat (mBuffers c) @ buffer (mClient c))))"
        by (simp only: body h sum.case option.case prod.case)
      then show ?thesis by blast
    qed
  qed
qed

text \<open>
  C9, as amended. A handler step from a state that satisfies the two-state invariant
  returns (no assertion fails, no buffer is overrun) in a state that satisfies it again,
  provided the 4-byte header the step consumes, if it consumes one, decodes to an \<open>int\<close>
  that is not negative. \<open>mPendingRead\<close> afterwards is 0, or unchanged, or that header.
\<close>

theorem pendingRead_two_states:
  assumes "pendingRead_inv c"
    and "mPendingRead c \<noteq> 0
         \<or> 0 \<le> sint (deserialize_int (take 4 (concat (mBuffers c) @ buffer (mClient c))))"
  shows "\<exists>c'. dataAvailable create c = Inr c'
          \<and> pendingRead_inv c'
          \<and> (mPendingRead c' = 0 \<or> mPendingRead c' = mPendingRead c
              \<or> mPendingRead c' = deserialize_int (take 4 (concat (mBuffers c) @ buffer (mClient c))))"
proof (cases "buffer (mClient c) = []")
  case True
  with assms(1) show ?thesis by (simp add: dataAvailable_once)
next
  case False
  from dataAvailable_body_inv [OF assms, of create] obtain go c' where
    "dataAvailable_body create c = Inr (go, c')" "pendingRead_inv c'"
    "mPendingRead c' = 0 \<or> mPendingRead c' = mPendingRead c
      \<or> mPendingRead c' = deserialize_int (take 4 (concat (mBuffers c) @ buffer (mClient c)))"
    by blast
  with False have "dataAvailable create c = Inr c' \<and> pendingRead_inv c'
     \<and> (mPendingRead c' = 0 \<or> mPendingRead c' = mPendingRead c
      \<or> mPendingRead c' = deserialize_int (take 4 (concat (mBuffers c) @ buffer (mClient c))))"
    by (simp only: dataAvailable_once if_False sum.case prod.case)
  then show ?thesis by blast
qed


theorem pendingRead_two_states_witness:
  "pendingRead_inv (receive [0, 0, 0, 5, 0, 0] example_connection)
   \<and> 0 \<le> sint (deserialize_int (take 4 (concat (mBuffers (receive [0, 0, 0, 5, 0, 0] example_connection))
                @ buffer (mClient (receive [0, 0, 0, 5, 0, 0] example_connection)))))
   \<and> (\<exists>c'. dataAvailable decode_message (receive [0, 0, 0, 5, 0, 0] example_connection) = Inr c'
          \<and> pendingRead_inv c' \<and> mPendingRead c' = 5)"
proof -
  let ?c = "receive [0, 0, 0, 5, 0, 0] example_connection"
  have h1: "pendingRead_inv ?c"
    by (simp add: pendingRead_inv_def receive_def example_connection_def)
  have hd: "deserialize_int (take 4 (concat (mBuffers ?c) @ buffer (mClient ?c))) = 5"
    by (simp add: receive_def example_connection_def deserialize_int_def)
  then have h2: "mPendingRead ?c \<noteq> 0
      \<or> 0 \<le> sint (deserialize_int (take 4 (concat (mBuffers ?c) @ buffer (mClient ?c))))"
    by simp
  have ev: "dataAvailable decode_message ?c
      = Inr (example_connection\<lparr>mBuffers := [[0, 0]], mPendingRead := 5\<rparr>)"
    by (simp add: receive_def dataAvailable_once dataAvailable_body_def readHeader_def
          readMessage_def bufferRead_def bufferSize_def deserialize_int_def
          example_connection_def Let_def)
  from pendingRead_two_states [OF h1 h2, of decode_message] ev
  have "\<exists>c'. dataAvailable decode_message ?c = Inr c' \<and> pendingRead_inv c' \<and> mPendingRead c' = 5"
    by auto
  with h1 hd show ?thesis by simp
qed

text \<open>
  C9 as stated fails on a header with the top bit set: the four bytes \<open>FF FF FF FF\<close>
  are stored as \<open>mPendingRead = -1\<close>, and the handler returns in that state.
\<close>

theorem pendingRead_negative_counterexample:
  "deliverAll decode_message [[255, 255, 255, 255]] example_connection
     = Inr (example_connection\<lparr>mPendingRead := - 1\<rparr>)
   \<and> sint (mPendingRead (example_connection\<lparr>mPendingRead := - 1\<rparr>)) = - 1
   \<and> \<not> pendingRead_inv (example_connection\<lparr>mPendingRead := - 1\<rparr>)"
  by (simp add: receive_def dataAvailable_once dataAvailable_body_def readHeader_def
        readMessage_def bufferRead_def bufferSize_def deserialize_int_def
        example_connection_def pendingRead_inv_def Let_def)

text \<open>
  C1 (the code falls short of the claim). Two frames that arrive in one chunk: the
  handler emits the first message and stops, because after the first pass the
  stream's buffer is empty and the test of line 133 ends the loop. The second frame
  stays in \<open>mBuffers\<close>, complete and undelivered.
\<close>

theorem two_frames_in_one_chunk:
  "deliverAll decode_message [encode 1 [97] @ encode 2 [98]] example_connection
     = Inr (example_connection\<lparr>mBuffers := [encode 2 [98]], trace := [NewMessage (1, [97])]\<rparr>)"
  by (simp add: receive_def dataAvailable_once dataAvailable_body_def readHeader_def
        readMessage_def bufferRead_def bufferSize_def deserialize_int_def serialize_int_def
        encode_def decode_message_def emit_def example_connection_def Let_def)

text \<open>The same two frames delivered one byte at a time are both emitted.\<close>

lemma two_frames_byte_by_byte:
  "deliverAll decode_message (map (\<lambda>b. [b]) (encode 1 [97] @ encode 2 [98])) example_connection
     = Inr (example_connection\<lparr>trace := [NewMessage (1, [97]), NewMessage (2, [98])]\<rparr>)"
  by (simp add: receive_def dataAvailable_once dataAvailable_body_def readHeader_def
        readMessage_def bufferRead_def bufferSize_def deserialize_int_def serialize_int_def
        encode_def decode_message_def emit_def example_connection_def Let_def)

text \<open>
  C3 (the code falls short of the claim). Three frames arrive in one chunk. One
  invocation of the handler delivers the first only and leaves two complete frames in
  the queue; a notification without new bytes delivers nothing; the next notification
  with one new byte delivers the second frame only.
\<close>

theorem buffered_frames_wait_for_later_notifications:
  "dataAvailable decode_message
      (receive (encode 1 [97] @ encode 2 [98] @ encode 3 [99]) example_connection)
     = Inr (example_connection\<lparr>mBuffers := [encode 2 [98] @ encode 3 [99]],
                               trace := [NewMessage (1, [97])]\<rparr>)
   \<and> deliverAll decode_message [encode 1 [97] @ encode 2 [98] @ encode 3 [99], []]
        example_connection
     = Inr (example_connection\<lparr>mBuffers := [encode 2 [98] @ encode 3 [99]],
                               trace := [NewMessage (1, [97])]\<rparr>)
   \<and> deliverAll decode_message [encode 1 [97] @ encode 2 [98] @ encode 3 [99], [], [0]]
        example_connection
     = Inr (example_connection\<lparr>mBuffers := [encode 3 [99], [0]],
                               trace := [NewMessage (1, [97]), NewMessage (2, [98])]\<rparr>)"
  by (simp add: receive_def dataAvailable_once dataAvailable_body_def readHeader_def
        readMessage_def bufferRead_def bufferSize_def deserialize_int_def serialize_int_def
        encode_def decode_message_def emit_def example_connection_def Let_def)

text \<open>
  In general one invocation of the handler makes at most one pass through the loop
  body, so it emits at most one message.
\<close>

lemma dataAvailable_at_most_one_message:
  assumes "dataAvailable create c = Inr c'"
  shows "trace c' = trace c \<or> (\<exists>message. trace c' = trace c @ [NewMessage message])"
proof (cases "buffer (mClient c) = []")
  case True
  with assms show ?thesis by (simp add: dataAvailable_once)
next
  case False
  with assms obtain go where b: "dataAvailable_body create c = Inr (go, c')"
    by (auto simp: dataAvailable_once split: sum.splits)
  then show ?thesis
    by (auto simp: dataAvailable_body_def readHeader_def readMessage_def emit_def Let_def
             split: sum.splits option.splits prod.splits if_splits)
qed

subsection \<open>What the handler does deliver\<close>

lemma unat_bufferSize_small:
  "length (concat buffers) < 2 ^ 32 \<Longrightarrow> unat (bufferSize buffers) = length (concat buffers)"
  by (simp add: bufferSize_concat unat_of_nat)

lemma readMessage_break:
  assumes "length (concat (mBuffers c)) < 2 ^ 32"
    and "length (concat (mBuffers c)) < unat (mPendingRead c)"
  shows "readMessage create c (bufferSize (mBuffers c)) = Inr (False, c)"
  using assms by (simp add: readMessage_def word_less_nat_alt unat_bufferSize_small)

lemma readMessage_emit:
  assumes "length (concat (mBuffers c)) < 2 ^ 32"
    and "0 \<le> sint (mPendingRead c)"
    and "unat (mPendingRead c) \<le> length (concat (mBuffers c))"
  shows "\<exists>c'. readMessage create c (bufferSize (mBuffers c)) = Inr (True, c')
          \<and> receive_state c'
              = (drop (unat (mPendingRead c)) (concat (mBuffers c)), 0,
                 trace c @ announce create (take (unat (mPendingRead c)) (concat (mBuffers c))),
                 buffer (mClient c))"
proof -
  have le: "unat (mPendingRead c) \<le> unat (bufferSize (mBuffers c))"
    using assms(1,3) by (simp add: unat_bufferSize_small)
  then have nb: "\<not> bufferSize (mBuffers c) < mPendingRead c"
    by (simp add: word_less_nat_alt)
  have small: "\<not> (\<not> 1024 < sint (mPendingRead c) \<and> 1024 < unat (mPendingRead c))"
  proof -
    have "unat (mPendingRead c) = nat (sint (mPendingRead c))"
      using unat_of_nonneg_sint [OF assms(2)] by (metis nat_int)
    then show ?thesis by linarith
  qed
  obtain rest where r: "bufferRead (mBuffers c) (mPendingRead c)
      = Inr (mPendingRead c, take (unat (mPendingRead c)) (concat (mBuffers c)), rest)"
    and cr: "concat rest = drop (unat (mPendingRead c)) (concat (mBuffers c))"
    using bufferRead_ok [OF le] by blast
  from nb small r cr show ?thesis
    by (auto simp: readMessage_def receive_state_def announce_def emit_def Let_def
             split: option.splits)
qed


text \<open>
  What one notification with a chunk that is not empty does, in terms of the bytes
  \<open>q\<close> that the queue holds once the chunk has been pushed: it reads at most one
  header and delivers at most one frame body.
\<close>

lemma dataAvailable_step:
  fixes c :: "'m Connection"
  assumes e: "buffer (mClient c) = []" and ne: "chunk \<noteq> []"
    and q: "q = concat (mBuffers c) @ chunk" and sz: "length q < 2 ^ 32"
    and h: "h = deserialize_int (take 4 q)"
    and pos: "0 \<le> sint (mPendingRead c)"
      "mPendingRead c \<noteq> 0 \<or> length q < 4 \<or> 0 \<le> sint h"
  shows "\<exists>c'. dataAvailable create (receive chunk c) = Inr c' \<and> receive_state c' =
     (if mPendingRead c \<noteq> 0 then
        (if length q < unat (mPendingRead c) then (q, mPendingRead c, trace c, [])
         else (drop (unat (mPendingRead c)) q, 0,
               trace c @ announce create (take (unat (mPendingRead c)) q), []))
      else if length q < 4 then (q, 0, trace c, [])
      else if length q - 4 < unat h then (drop 4 q, h, trace c, [])
      else (drop (4 + unat h) q, 0, trace c @ announce create (take (unat h) (drop 4 q)), []))"
proof -
  define c1 where "c1 = (receive chunk c)\<lparr>mBuffers := mBuffers (receive chunk c) @ [buffer (mClient (receive chunk c))],
                mClient := (mClient (receive chunk c))\<lparr>buffer := []\<rparr>\<rparr>"
  have body: "dataAvailable_body create (receive chunk c) =
     (case readHeader c1 (bufferSize (mBuffers c1)) of
          Inl e \<Rightarrow> Inl e
        | Inr None \<Rightarrow> Inr (False, c1)
        | Inr (Some (c2, available')) \<Rightarrow> readMessage create c2 available')"
    unfolding dataAvailable_body_def c1_def Let_def by (rule refl)
  have nb: "buffer (mClient (receive chunk c)) \<noteq> []"
    using e ne by (simp add: receive_def)
  have once: "dataAvailable create (receive chunk c) =
      (case dataAvailable_body create (receive chunk c) of Inl e \<Rightarrow> Inl e | Inr (go, c') \<Rightarrow> Inr c')"
    using nb by (simp only: dataAvailable_once if_False)
  have cat: "concat (mBuffers c1) = q" using e by (simp add: c1_def receive_def q)
  have f1: "mPendingRead c1 = mPendingRead c" "trace c1 = trace c" "buffer (mClient c1) = []"
    by (simp_all add: c1_def receive_def)
  have sz1: "length (concat (mBuffers c1)) < 2 ^ 32" using sz cat by simp
  show ?thesis
  proof (cases "mPendingRead c = 0")
    case False
    then have hd: "readHeader c1 (bufferSize (mBuffers c1)) = Inr (Some (c1, bufferSize (mBuffers c1)))"
      by (simp add: readHeader_def f1)
    show ?thesis
    proof (cases "length q < unat (mPendingRead c)")
      case True
      then have "readMessage create c1 (bufferSize (mBuffers c1)) = Inr (False, c1)"
        using readMessage_break [OF sz1] by (simp add: cat f1)
      then have "dataAvailable create (receive chunk c) = Inr c1"
        by (simp add: once body hd)
      moreover have "receive_state c1 = (q, mPendingRead c, trace c, [])"
        by (simp add: receive_state_def cat f1)
      ultimately show ?thesis using False True by simp
    next
      case ge: False
      from readMessage_emit [OF sz1, of create] pos(1) ge obtain c' where
        "readMessage create c1 (bufferSize (mBuffers c1)) = Inr (True, c')"
        "receive_state c' = (drop (unat (mPendingRead c)) q, 0,
                 trace c @ announce create (take (unat (mPendingRead c)) q), [])"
        by (auto simp: cat f1)
      then have "dataAvailable create (receive chunk c) = Inr c' \<and> receive_state c'
           = (drop (unat (mPendingRead c)) q, 0,
                 trace c @ announce create (take (unat (mPendingRead c)) q), [])"
        by (simp add: once body hd)
      then show ?thesis using False ge by auto
    qed
  next
    case zero: True
    show ?thesis
    proof (cases "length q < 4")
      case True
      then have "bufferSize (mBuffers c1) < 4"
        using sz1 by (simp add: word_less_nat_alt unat_bufferSize_small cat)
      then have "readHeader c1 (bufferSize (mBuffers c1)) = Inr None"
        by (simp add: readHeader_def f1 zero)
      then have "dataAvailable create (receive chunk c) = Inr c1"
        by (simp add: once body)
      moreover have "receive_state c1 = (q, 0, trace c, [])"
        by (simp add: receive_state_def cat f1 zero)
      ultimately show ?thesis using zero True by simp
    next
      case four: False
      then have le: "unat (4 :: 32 word) \<le> unat (bufferSize (mBuffers c1))"
        using sz1 by (simp add: unat_bufferSize_small cat)
      then have nlt: "\<not> bufferSize (mBuffers c1) < 4"
        by (simp add: word_less_nat_alt)
      obtain rest where r: "bufferRead (mBuffers c1) 4
          = Inr (4, take (unat (4 :: 32 word)) (concat (mBuffers c1)), rest)"
        and cr: "concat rest = drop (unat (4 :: 32 word)) (concat (mBuffers c1))"
        using bufferRead_ok [OF le] by blast
      have r': "bufferRead (mBuffers c1) 4 = Inr (4, take 4 q, rest)"
        using r by (simp add: cat)
      have cr': "concat rest = drop 4 q" using cr by (simp add: cat)
      have av: "bufferSize (mBuffers c1) - 4 = bufferSize rest"
        using bufferSize_after_read [OF le cr] by simp
      define c2 where "c2 = c1\<lparr>mBuffers := rest, mPendingRead := h\<rparr>"
      have f2: "mBuffers c2 = rest" "mPendingRead c2 = h" "trace c2 = trace c"
        "buffer (mClient c2) = []"
        by (simp_all add: c2_def f1)
      have hd: "readHeader c1 (bufferSize (mBuffers c1)) = Inr (Some (c2, bufferSize (mBuffers c2)))"
        using nlt by (simp add: readHeader_def f1 zero r' av f2) (simp add: c2_def h)
      have sz2: "length (concat (mBuffers c2)) < 2 ^ 32" using sz by (simp add: f2 cr')
      show ?thesis
      proof (cases "length q - 4 < unat h")
        case True
        then have "readMessage create c2 (bufferSize (mBuffers c2)) = Inr (False, c2)"
          using readMessage_break [OF sz2] by (simp add: f2 cr')
        then have "dataAvailable create (receive chunk c) = Inr c2"
          by (simp add: once body hd)
        moreover have "receive_state c2 = (drop 4 q, h, trace c, [])"
          by (simp add: receive_state_def f2 cr')
        ultimately show ?thesis using zero four True by simp
      next
        case ge: False
        from pos(2) zero four have "0 \<le> sint h" by simp
        from readMessage_emit [OF sz2, of create] this ge obtain c' where
          "readMessage create c2 (bufferSize (mBuffers c2)) = Inr (True, c')"
          "receive_state c' = (drop (unat h) (drop 4 q), 0,
                 trace c @ announce create (take (unat h) (drop 4 q)), [])"
          by (auto simp: f2 cr')
        then have "dataAvailable create (receive chunk c) = Inr c' \<and> receive_state c'
           = (drop (4 + unat h) q, 0, trace c @ announce create (take (unat h) (drop 4 q)), [])"
          by (simp add: once body hd add.commute)
        then show ?thesis using zero four ge by auto
      qed
    qed
  qed
qed


lemma deserialize_serialize: "deserialize_int (serialize_int w) = w"
proof (rule bit_word_eqI)
  fix n assume "n < LENGTH(32)"
  then consider "n < 8" | "8 \<le> n" "n < 16" | "16 \<le> n" "n < 24" | "24 \<le> n" "n < 32"
    by fastforce
  then show "bit (deserialize_int (serialize_int w)) n = bit w n"
  proof cases
    case 1
    then show ?thesis by (auto simp: deserialize_int_def serialize_int_def bit_simps)
  next
    case 2
    then show ?thesis by (auto simp: deserialize_int_def serialize_int_def bit_simps)
  next
    case 3
    then show ?thesis by (auto simp: deserialize_int_def serialize_int_def bit_simps)
  next
    case 4
    then show ?thesis by (auto simp: deserialize_int_def serialize_int_def bit_simps)
  qed
qed

lemma small_length_word:
  assumes "n < 2 ^ 31"
  shows "unat (of_nat n :: 32 word) = n" "0 \<le> sint (of_nat n :: 32 word)"
proof -
  from assms have "n < 2 ^ 32" by simp
  then show "unat (of_nat n :: 32 word) = n" by (simp add: unat_of_nat)
  have "sint (0 + of_nat n :: 32 word) = sint (0 :: 32 word) + int n"
    by (rule sint_add_of_nat) (use assms in auto)
  then show "0 \<le> sint (of_nat n :: 32 word)" by simp
qed

lemma encode_parts:
  "length (encode ident payload) = 8 + length payload"
  "take 4 (encode ident payload) = serialize_int (of_nat (4 + length payload))"
  "drop 4 (encode ident payload) = serialize_int ident @ payload"
  by (simp_all add: encode_def length_serialize_int)

lemma deliverAll_no_bytes:
  assumes "concat cs = []" "buffer (mClient c) = []"
  shows "deliverAll create cs c = Inr c"
  using assms
proof (induction cs)
  case Nil
  then show ?case by simp
next
  case (Cons ch cs)
  then have "ch = []" by simp
  then have "receive ch c = c" using Cons.prems(2) by (simp add: receive_def)
  with Cons show ?case by (simp add: dataAvailable_once)
qed


text \<open>
  One frame, split into chunks in any way (empty chunks included), is delivered when its
  last byte arrives, provided no chunk carries bytes of another frame.
\<close>

lemma frame_delivery:
  fixes c :: "'m Connection"
  assumes len: "4 + length payload < 2 ^ 31"
  shows "encode ident payload = p @ concat cs \<Longrightarrow> length p < length (encode ident payload) \<Longrightarrow>
     receive_state c = (if length p < 4 then p else drop 4 p,
                        if length p < 4 then 0 else of_nat (4 + length payload), t, []) \<Longrightarrow>
     \<exists>c'. deliverAll create cs c = Inr c'
        \<and> receive_state c' = ([], 0, t @ announce create (serialize_int ident @ payload), [])"
proof (induction cs arbitrary: p c)
  case Nil
  then show ?case by simp
next
  case (Cons ch cs)
  let ?f = "encode ident payload"
  define L where "L = 4 + length payload"
  define h where "h = (of_nat (4 + length payload) :: 32 word)"
  have uL: "unat h = L" and sL: "0 \<le> sint h"
    using small_length_word [OF len] by (simp_all only: h_def L_def)
  have hne: "h \<noteq> 0" using uL by (auto simp: L_def)
  have lf: "length ?f = 4 + L" by (simp add: encode_parts L_def)
  have Lb: "L < 2 ^ 31" using len by (simp add: L_def)
  have hv: "deserialize_int (take 4 ?f) = h"
    by (simp only: encode_parts deserialize_serialize h_def)
  define body where "body = serialize_int ident @ payload"
  have bodyf: "drop 4 ?f = body" unfolding body_def by (rule encode_parts)
  have bl: "length body = L" by (simp add: body_def L_def length_serialize_int)
  from Cons.prems(3) have st: "concat (mBuffers c) = (if length p < 4 then p else drop 4 p)"
    "mPendingRead c = (if length p < 4 then 0 else h)" "trace c = t" "buffer (mClient c) = []"
    by (simp_all only: receive_state_def h_def prod.inject)
  show ?case
  proof (cases "ch = []")
    case True
    then have same: "receive ch c = c" using st(4) by (simp add: receive_def)
    have "\<exists>c'. deliverAll create cs c = Inr c'
        \<and> receive_state c' = ([], 0, t @ announce create (serialize_int ident @ payload), [])"
      by (rule Cons.IH [of p]) (use Cons.prems True in auto)
    then show ?thesis using same st(4) by (simp add: dataAvailable_once)
  next
    case ne: False
    define p' where "p' = p @ ch"
    define q where "q = concat (mBuffers c) @ ch"
    have fp: "?f = p' @ concat cs" using Cons.prems(1) by (simp add: p'_def)
    then have lp': "length p' \<le> length ?f" by (metis length_append le_add1)
    have qlen: "length q \<le> length p'" by (simp add: q_def p'_def st(1))
    have sz: "length q < 2 ^ 32" using qlen lp' lf Lb by simp
    have pos1: "0 \<le> sint (mPendingRead c)" using sL by (simp add: st(2))
    have hq: "mPendingRead c \<noteq> 0 \<or> length q < 4 \<or> 0 \<le> sint (deserialize_int (take 4 q))"
    proof (cases "length p < 4 \<and> 4 \<le> length q")
      case True
      then have "q = p'" by (simp add: q_def p'_def st(1))
      with True fp have "take 4 q = take 4 ?f" by simp
      then have "deserialize_int (take 4 q) = h" using hv by simp
      with sL show ?thesis by simp
    next
      case False
      then show ?thesis using hne by (auto simp: st(2))
    qed
    from dataAvailable_step [OF st(4) ne q_def sz refl pos1 hq, of create]
    obtain c1 where d: "dataAvailable create (receive ch c) = Inr c1"
      and r: "receive_state c1 =
     (if mPendingRead c \<noteq> 0 then
        (if length q < unat (mPendingRead c) then (q, mPendingRead c, trace c, [])
         else (drop (unat (mPendingRead c)) q, 0,
               trace c @ announce create (take (unat (mPendingRead c)) q), []))
      else if length q < 4 then (q, 0, trace c, [])
      else if length q - 4 < unat (deserialize_int (take 4 q)) then
        (drop 4 q, deserialize_int (take 4 q), trace c, [])
      else (drop (4 + unat (deserialize_int (take 4 q))) q, 0,
            trace c @ announce create (take (unat (deserialize_int (take 4 q))) (drop 4 q)), []))"
      by blast
    have step: "deliverAll create (ch # cs) c = deliverAll create cs c1"
      using d by simp
    show ?thesis
    proof (cases "length p' < length ?f")
      case more: True
      have inv: "receive_state c1 = (if length p' < 4 then p' else drop 4 p',
                        if length p' < 4 then 0 else h, t, [])"
      proof (cases "length p < 4")
        case short: True
        then have qp: "q = p'" by (simp add: q_def p'_def st(1))
        show ?thesis
        proof (cases "length p' < 4")
          case True
          with short show ?thesis using r by (simp add: st qp)
        next
          case False
          with fp have "take 4 p' = take 4 ?f" by simp
          then have hv': "deserialize_int (take 4 p') = h" using hv by simp
          from False more lf have "length p' - 4 < L" by simp
          with short False show ?thesis using r by (simp add: st qp hv' uL)
        qed
      next
        case long: False
        then have qp: "q = drop 4 p'" by (simp add: q_def p'_def st(1))
        from long have l4: "\<not> length p' < 4" by (simp add: p'_def)
        from more lf l4 have "length q < L" by (simp add: qp)
        with long l4 hne show ?thesis using r by (simp add: st qp uL)
      qed
      have "\<exists>c'. deliverAll create cs c1 = Inr c'
        \<and> receive_state c' = ([], 0, t @ announce create (serialize_int ident @ payload), [])"
        by (rule Cons.IH [OF fp more inv [unfolded h_def]])
      with step show ?thesis by simp
    next
      case complete: False
      with complete lp' have full: "length p' = length ?f" by simp
      with fp have pf: "p' = ?f" and rest: "concat cs = []" by auto
      have fin: "receive_state c1 = ([], 0, t @ announce create body, [])"
      proof (cases "length p < 4")
        case short: True
        then have qp: "q = ?f" using pf by (simp add: q_def p'_def st(1))
        show ?thesis using r short
          by (simp add: st qp hv uL lf bodyf bl)
      next
        case long: False
        then have "q = drop 4 p'" by (simp add: q_def p'_def st(1))
        then have qp: "q = drop 4 ?f" using pf by simp
        show ?thesis using r long hne
          by (simp add: st qp uL bodyf bl)
      qed
      then have "buffer (mClient c1) = []" by (simp add: receive_state_def)
      from deliverAll_no_bytes [OF rest this, of create] step fin show ?thesis
        by (simp add: body_def)
    qed
  qed
qed


lemma deliverAll_append:
  "deliverAll create (xs @ ys) c =
    (case deliverAll create xs c of Inl e \<Rightarrow> Inl e | Inr c' \<Rightarrow> deliverAll create ys c')"
  by (induction xs arbitrary: c) (auto split: sum.splits)

lemma frames_in_own_chunks:
  fixes c :: "'m Connection"
  shows "list_all (\<lambda>(ident, payload, cs). concat cs = encode ident payload
                       \<and> 4 + length payload < 2 ^ 31) frames \<Longrightarrow>
     receive_state c = ([], 0, t, []) \<Longrightarrow>
     \<exists>c'. deliverAll create (concat (map (\<lambda>(ident, payload, cs). cs) frames)) c = Inr c'
        \<and> receive_state c'
            = ([], 0, t @ concat (map (\<lambda>(ident, payload, cs).
                                 announce create (serialize_int ident @ payload)) frames), [])"
proof (induction frames arbitrary: c t)
  case Nil
  then show ?case by simp
next
  case (Cons fr frames)
  obtain ident payload cs where fr: "fr = (ident, payload, cs)" by (cases fr)
  with Cons.prems(1) have f: "concat cs = encode ident payload" "4 + length payload < 2 ^ 31"
    and rest: "list_all (\<lambda>(ident, payload, cs). concat cs = encode ident payload
                       \<and> 4 + length payload < 2 ^ 31) frames"
    by simp_all
  have "\<exists>c1. deliverAll create cs c = Inr c1
        \<and> receive_state c1 = ([], 0, t @ announce create (serialize_int ident @ payload), [])"
    by (rule frame_delivery [OF f(2), of ident "[]" cs c t create])
       (use f(1) Cons.prems(2) in \<open>simp_all add: encode_parts\<close>)
  then obtain c1 where d: "deliverAll create cs c = Inr c1"
    and r: "receive_state c1 = ([], 0, t @ announce create (serialize_int ident @ payload), [])"
    by blast
  from Cons.IH [OF rest r] obtain c' where
    "deliverAll create (concat (map (\<lambda>(ident, payload, cs). cs) frames)) c1 = Inr c'"
    "receive_state c' = ([], 0, (t @ announce create (serialize_int ident @ payload))
         @ concat (map (\<lambda>(ident, payload, cs). announce create (serialize_int ident @ payload)) frames), [])"
    by blast
  with d fr show ?case by (simp add: deliverAll_append)
qed

lemma announce_decode_message:
  "announce decode_message (serialize_int ident @ payload) = [NewMessage (ident, payload)]"
  by (simp add: announce_def decode_message_def length_serialize_int deserialize_serialize)

text \<open>
  So every sequence of messages is emitted, in order and with its ids and payloads,
  when no chunk spans a frame boundary, in particular when the bytes arrive one at a
  time. The frames that stay behind are those that a chunk completes after it has
  already completed another one.
\<close>

lemma messages_delivered_in_order:
  assumes "list_all (\<lambda>(ident, payload, cs). concat cs = encode ident payload
                       \<and> 4 + length payload < 2 ^ 31) frames"
    and "receive_state c = ([], 0, t, [])"
  shows "\<exists>c'. deliverAll decode_message (concat (map (\<lambda>(ident, payload, cs). cs) frames)) c = Inr c'
        \<and> trace c' = t @ map (\<lambda>(ident, payload, cs). NewMessage (ident, payload)) frames"
proof -
  have "concat (map (\<lambda>(ident, payload, cs).
            announce decode_message (serialize_int ident @ payload)) frames)
        = map (\<lambda>(ident, payload, cs). NewMessage (ident, payload)) frames"
    by (induction frames) (auto simp: announce_decode_message)
  with frames_in_own_chunks [OF assms, of decode_message] show ?thesis
    by (auto simp: receive_state_def)
qed

lemma messages_delivered_byte_by_byte:
  assumes "list_all (\<lambda>(ident, payload). 4 + length payload < 2 ^ 31) messages"
    and "receive_state c = ([], 0, t, [])"
  shows "\<exists>c'. deliverAll decode_message
            (map (\<lambda>b. [b]) (concat (map (\<lambda>(ident, payload). encode ident payload) messages))) c
          = Inr c'
        \<and> trace c' = t @ map NewMessage messages"
proof -
  define frames where
    "frames = map (\<lambda>(ident, payload). (ident, payload, map (\<lambda>b. [b]) (encode ident payload))) messages"
  have one: "concat (map (\<lambda>b. [b]) xs) = xs" for xs :: Buffer
    by (induction xs) simp_all
  have ok: "list_all (\<lambda>(ident, payload, cs). concat cs = encode ident payload
                       \<and> 4 + length payload < 2 ^ 31) frames"
    using assms(1) unfolding frames_def by (induction messages) (auto simp: one)
  have ch: "concat (map (\<lambda>(ident, payload, cs). cs) frames)
      = map (\<lambda>b. [b]) (concat (map (\<lambda>(ident, payload). encode ident payload) messages))"
    unfolding frames_def by (induction messages) auto
  have tr: "map (\<lambda>(ident, payload, cs). NewMessage (ident, payload)) frames = map NewMessage messages"
    unfolding frames_def by (induction messages) auto
  from messages_delivered_in_order [OF ok assms(2)] show ?thesis
    by (simp add: ch tr)
qed

section \<open>Properties of the process runner\<close>

lemmas proc_defs = startInternal_def CreatePipe_def CreateProcess_def closeHandleIfValid_def
  CloseHandle_def set_pipe_def log_error_def raise_signal_def Process_new_def all_ok_def
  example_child_def Let_def

lemma example_started_eq:
  "example_started =
    Process_new\<lparr>mStdIn := (Handle 0, Handle 1), mStdOut := (Handle 2, INVALID_HANDLE_VALUE),
      mStdErr := (Handle 4, INVALID_HANDLE_VALUE), hProcess := Handle 6, hThread := Handle 7,
      mthStdout := Some (Worker (Handle 2) ReadyReadStdOut True),
      mthStderr := Some (Worker (Handle 4) ReadyReadStdErr False),
      os_next := 8, os_open := [0, 1, 2, 4, 6, 7],
      os_pipes := [(0, []), (2, [[111, 117, 116]]), (4, [[101, 114, 114]])]\<rparr>"
  by (simp add: example_started_def proc_defs)

text \<open>
  C2 (the code falls short of the claim). After a spawn that worked, with a child that
  wrote \<open>out\<close> to its standard output and \<open>err\<close> to its standard error, the worker
  started for stderr (the pipe \<open>mStdErr[READ_END]\<close>, the signal for stderr, no
  finalizer) reads the stdout pipe, appends the bytes to \<open>mStdOutBuffer\<close> and raises
  the stderr signal; the stderr pipe keeps its bytes and \<open>mStdErrBuffer\<close> stays empty.
\<close>

theorem stderr_worker_reads_stdout_pipe:
  "mthStderr example_started = Some (Worker (READ_END (mStdErr example_started)) ReadyReadStdErr False)
   \<and> READ_END (mStdErr example_started) = Handle 4
   \<and> run_worker (Worker (Handle 4) ReadyReadStdErr False) example_started
       = example_started\<lparr>mStdOutBuffer := [111, 117, 116], emitted := [ReadyReadStdErr],
            os_pipes := [(0, []), (2, []), (4, [[101, 114, 114]])]\<rparr>"
  by (simp add: example_started_eq run_worker_def readFromPipe_def readFromPipe_loop.simps
        ReadFile_def pending_def proc_defs)

text \<open>No worker, whatever its arguments, ever appends to \<open>mStdErrBuffer\<close>.\<close>

lemma readFromPipe_loop_stderr:
  "mStdErrBuffer (readFromPipe_loop sig p) = mStdErrBuffer p"
proof (induction sig p rule: readFromPipe_loop.induct)
  case (1 sig p)
  show ?case
  proof (cases "ReadFile (READ_END (mStdOut p)) p")
    case (Pair r p1)
    have e1: "mStdErrBuffer p1 = mStdErrBuffer p"
      using Pair by (auto simp: ReadFile_def split: option.splits list.splits)
    show ?thesis
    proof (cases r)
      case (ReadOk buf)
      with Pair have "ReadFile (READ_END (mStdOut p)) p = (ReadOk buf, p1)" by simp
      from "1.IH" [OF this [symmetric] refl]
      have "mStdErrBuffer (readFromPipe_loop sig
                (raise_signal sig (p1\<lparr>mStdOutBuffer := mStdOutBuffer p1 @ buf\<rparr>)))
              = mStdErrBuffer p1"
        by (simp add: raise_signal_def)
      with Pair ReadOk e1 show ?thesis
        by (subst readFromPipe_loop.simps) simp
    next
      case (ReadFailed err)
      with Pair e1 show ?thesis
        by (subst readFromPipe_loop.simps) (simp add: log_error_def)
    qed
  qed
qed


lemma wait_stderr: "mStdErrBuffer (waitForProcessToFinish p) = mStdErrBuffer p"
  by (simp add: waitForProcessToFinish_def GetExitCodeProcess_def closeHandleIfValid_def
        CloseHandle_def raise_signal_def log_error_def Let_def split: HANDLE.splits)

lemma no_worker_fills_stderr_buffer: "mStdErrBuffer (run_worker w p) = mStdErrBuffer p"
  by (cases w) (simp add: run_worker_def readFromPipe_def Let_def wait_stderr readFromPipe_loop_stderr)


text \<open>
  C4 (the code falls short of the claim). Two callers enter
  \<open>waitForProcessToFinish\<close> and run its statements in turn: both pass the test of the
  handle before either invalidates it, so the exit code is fetched twice and
  \<open>Finished\<close> is raised twice. The function takes no lock and has no completion flag.
\<close>

theorem concurrent_finalization_fires_twice:
  "interleave [True, False, True, False, True, False, True, False, True, False, True, False]
      (AtCheck, AtCheck, example_started)
    = (AtReturn, AtReturn,
       example_started\<lparr>hProcess := INVALID_HANDLE_VALUE, hThread := INVALID_HANDLE_VALUE,
          mReturn := ExitCode 0, emitted := [Finished, Finished], os_open := [0, 1, 2, 4],
          os_exitCodeFetches := 2\<rparr>)"
  by (simp add: example_started_eq WaitForSingleObject_def GetExitCodeProcess_def proc_defs)

text \<open>Two calls one after the other fetch the exit code once and raise \<open>Finished\<close> once.\<close>

lemma sequential_finalization_fires_once:
  "waitForProcessToFinish (waitForProcessToFinish example_started)
    = example_started\<lparr>hProcess := INVALID_HANDLE_VALUE, hThread := INVALID_HANDLE_VALUE,
          mReturn := ExitCode 0, emitted := [Finished], os_open := [0, 1, 2, 4],
          os_exitCodeFetches := 1\<rparr>"
  by (simp add: example_started_eq waitForProcessToFinish_def WaitForSingleObject_def
        GetExitCodeProcess_def proc_defs)

lemma startInternal_failure_state:
  assumes "\<not> (pipeIn os \<and> pipeOut os \<and> pipeErr os \<and> infoIn os \<and> infoOut os \<and> infoErr os
              \<and> launch os)"
  shows "\<exists>p'. startInternal os child p = Inr (Error, p')
       \<and> mthStdout p' = mthStdout p
       \<and> mthStderr p' = mthStderr p
       \<and> os_open p'
           = os_open p @ [os_next p ..< os_next p
                + 2 * (if \<not> pipeIn os then 0 else if \<not> pipeOut os then 1
                       else if \<not> pipeErr os then 2 else 3)]"
  using assms
  by (cases "pipeIn os"; cases "pipeOut os"; cases "pipeErr os"; cases "launch os")
     (auto simp: startInternal_def CreatePipe_def CreateProcess_def log_error_def Let_def
        upt_rec numeral_eq_Suc)

text \<open>
  C5, as amended. A spawn in which a pipe creation, an inheritance setting or the
  launch fails returns \<open>Error\<close> (it never reaches the thread assignments) and starts no
  reader thread. The call closes no handle: the handles open when it returns are
  those open before, followed by the two handles of every pipe it created.
\<close>

theorem startInternal_failure:
  assumes "\<not> (pipeIn os \<and> pipeOut os \<and> pipeErr os \<and> infoIn os \<and> infoOut os \<and> infoErr os
              \<and> launch os)"
  shows "\<exists>p'. startInternal os child p = Inr (Error, p')
       \<and> mthStdout p' = mthStdout p
       \<and> mthStderr p' = mthStderr p
       \<and> os_open p'
           = os_open p @ [os_next p ..< os_next p
                + 2 * (if \<not> pipeIn os then 0 else if \<not> pipeOut os then 1
                       else if \<not> pipeErr os then 2 else 3)]"
  using assms by (rule startInternal_failure_state)

theorem startInternal_failure_witness:
  "\<not> (pipeIn (all_ok\<lparr>launch := False\<rparr>) \<and> pipeOut (all_ok\<lparr>launch := False\<rparr>)
       \<and> pipeErr (all_ok\<lparr>launch := False\<rparr>) \<and> infoIn (all_ok\<lparr>launch := False\<rparr>)
       \<and> infoOut (all_ok\<lparr>launch := False\<rparr>) \<and> infoErr (all_ok\<lparr>launch := False\<rparr>)
       \<and> launch (all_ok\<lparr>launch := False\<rparr>))
   \<and> (\<exists>p'. startInternal (all_ok\<lparr>launch := False\<rparr>) example_child Process_new = Inr (Error, p')
          \<and> mthStdout p' = None \<and> mthStderr p' = None
          \<and> os_open p' = [0, 1, 2, 3, 4, 5])"
proof -
  let ?os = "all_ok\<lparr>launch := False\<rparr>"
  have h: "\<not> (pipeIn ?os \<and> pipeOut ?os \<and> pipeErr ?os \<and> infoIn ?os \<and> infoOut ?os \<and> infoErr ?os
              \<and> launch ?os)"
    by simp
  have e: "[os_next Process_new ..< os_next Process_new
                + 2 * (if \<not> pipeIn ?os then 0 else if \<not> pipeOut ?os then 1
                       else if \<not> pipeErr ?os then 2 else 3)] = [0, 1, 2, 3, 4, 5]"
    by (simp add: Process_new_def all_ok_def upt_rec)
  have n: "mthStdout Process_new = None" "mthStderr Process_new = None" "os_open Process_new = []"
    by (simp_all add: Process_new_def)
  from startInternal_failure [OF h, of example_child Process_new]
  have "\<exists>p'. startInternal ?os example_child Process_new = Inr (Error, p')
          \<and> mthStdout p' = None \<and> mthStderr p' = None
          \<and> os_open p' = [0, 1, 2, 3, 4, 5]"
    unfolding e n by simp
  with h show ?thesis by blast
qed

text \<open>
  C5 as stated fails: when the launch fails, the six handles of the three pipes are
  open when \<open>startInternal\<close> returns.
\<close>

theorem spawn_failure_leaves_handles_counterexample:
  "startInternal (all_ok\<lparr>launch := False\<rparr>) example_child Process_new
    = Inr (Error, Process_new\<lparr>mStdIn := (Handle 0, Handle 1), mStdOut := (Handle 2, Handle 3),
         mStdErr := (Handle 4, Handle 5), hProcess := NULL_HANDLE, hThread := NULL_HANDLE,
         errors := 1, os_next := 6, os_open := [0, 1, 2, 3, 4, 5],
         os_pipes := [(0, []), (2, []), (4, [])]\<rparr>)
   \<and> os_open (Process_new\<lparr>mStdIn := (Handle 0, Handle 1), mStdOut := (Handle 2, Handle 3),
         mStdErr := (Handle 4, Handle 5), hProcess := NULL_HANDLE, hThread := NULL_HANDLE,
         errors := 1, os_next := 6, os_open := [0, 1, 2, 3, 4, 5],
         os_pipes := [(0, []), (2, []), (4, [])]\<rparr>) = [0, 1, 2, 3, 4, 5]"
  by (simp add: proc_defs)

text \<open>
  Where the handles go afterwards. The destructor closes the handles that the fields
  hold: after a failed first spawn of a new object none stays open. A second spawn on
  the same object stores its handles over those of the first (lines 87-89) without
  closing them, so the destructor then leaves the first six open. A second spawn after
  one that worked ends in \<open>std::terminate\<close>, since the threads were not joined.
\<close>

lemmas destr_defs = Process_destructor_def close_pair_def waitForProcessToFinish_def
  WaitForSingleObject_def GetExitCodeProcess_def closeHandleIfValid_def CloseHandle_def
  raise_signal_def log_error_def Process_new_def Let_def

lemma failed_launch_state:
  "startInternal (all_ok\<lparr>launch := False\<rparr>) child p
    = Inr (Error,
        p\<lparr>mStdIn := (Handle (os_next p), Handle (Suc (os_next p))),
          mStdOut := (Handle (os_next p + 2), Handle (Suc (os_next p + 2))),
          mStdErr := (Handle (os_next p + 4), Handle (Suc (os_next p + 4))),
          hProcess := NULL_HANDLE, hThread := NULL_HANDLE, errors := Suc (errors p),
          os_next := os_next p + 6,
          os_open := os_open p @ [os_next p, Suc (os_next p), os_next p + 2, Suc (os_next p + 2),
                                  os_next p + 4, Suc (os_next p + 4)],
          os_pipes := os_pipes p @ [(os_next p, []), (os_next p + 2, []), (os_next p + 4, [])]\<rparr>)"
  by (simp add: startInternal_def CreatePipe_def CreateProcess_def log_error_def all_ok_def Let_def)

lemma destructor_after_first_failure:
  "os_open (Process_destructor
      (Process_new\<lparr>mStdIn := (Handle 0, Handle 1), mStdOut := (Handle 2, Handle 3),
         mStdErr := (Handle 4, Handle 5), hProcess := NULL_HANDLE, hThread := NULL_HANDLE,
         errors := 1, os_next := 6, os_open := [0, 1, 2, 3, 4, 5],
         os_pipes := [(0, []), (2, []), (4, [])]\<rparr>)) = []"
  by (simp add: destr_defs)

lemma destructor_after_second_failure:
  "\<exists>p1 p2. startInternal (all_ok\<lparr>launch := False\<rparr>) example_child Process_new = Inr (Error, p1)
     \<and> startInternal (all_ok\<lparr>launch := False\<rparr>) example_child p1 = Inr (Error, p2)
     \<and> os_open p2 = [0, 1, 2, 3, 4, 5, 6, 7, 8, 9, 10, 11]
     \<and> os_open (Process_destructor p2) = [0, 1, 2, 3, 4, 5]"
  by (simp add: failed_launch_state) (simp add: destr_defs)

lemma second_spawn_terminates:
  "startInternal all_ok example_child example_started = Inl Terminated"
  by (simp add: example_started_eq proc_defs)

end
